theory Spec2Isabelle
  imports Complex_Main "HOL-Library.Sublist" "HOL-Library.AList"
begin

section \<open>JavaScript strings\<close>

text \<open>
  A string is a list of code units; this development covers the code units
  U+0000 .. U+00FF, one \<^typ>\<open>char\<close> each.  \<open>is_space\<close> is the regular expression
  \<^verbatim>\<open>/\s/\<close> on that range (tab, line feed, vertical tab, form feed, carriage
  return, space, no-break space); \<open>String.prototype.trim\<close> removes the same set
  from both ends.  \<open>is_ident\<close> is \<^verbatim>\<open>/[a-zA-Z0-9_-]/\<close> and \<open>is_alpha\<close> is
  \<^verbatim>\<open>/[a-zA-Z]/\<close>.
\<close>

definition is_space :: "char \<Rightarrow> bool" where
  "is_space c \<longleftrightarrow>
     c \<in> set [CHR 0x09, CHR 0x0A, CHR 0x0B, CHR 0x0C, CHR 0x0D, CHR 0x20, CHR 0xA0]"

definition is_alpha :: "char \<Rightarrow> bool" where
  "is_alpha c \<longleftrightarrow>
     (let n = (of_char c :: nat) in (65 \<le> n \<and> n \<le> 90) \<or> (97 \<le> n \<and> n \<le> 122))"

definition is_ident :: "char \<Rightarrow> bool" where
  "is_ident c \<longleftrightarrow>
     (let n = (of_char c :: nat) in
        (97 \<le> n \<and> n \<le> 122) \<or> (65 \<le> n \<and> n \<le> 90) \<or> (48 \<le> n \<and> n \<le> 57)
        \<or> c = CHR ''_'' \<or> c = CHR ''-'')"

definition trim :: "string \<Rightarrow> string" where
  "trim s = rev (dropWhile is_space (rev (dropWhile is_space s)))"

section \<open>The cursor shared by both parsers\<close>

text \<open>
  \<open>TXMLParser\<close> and \<open>TSSParser\<close> keep the same three fields \<open>pos\<close>, \<open>line\<close>,
  \<open>column\<close> next to the text.  The cursor holds the text from \<open>pos\<close> on
  (\<open>rest\<close>), so \<open>pos < length\<close> is \<open>rest \<noteq> []\<close>, \<open>text[pos]\<close> is the head of
  \<open>rest\<close> and \<open>text.startsWith(e, pos)\<close> is \<open>prefix e rest\<close>.
\<close>

record cursor =
  rest :: string
  line :: nat
  column :: nat

text \<open>
  The loops that walk over a character and keep the line count
  (\<^verbatim>\<open>if (c === '\n') { line++; column = 1 } else { column++ }\<close>).
\<close>

fun track :: "string \<Rightarrow> nat \<times> nat \<Rightarrow> nat \<times> nat" where
  "track [] lc = lc"
| "track (x # xs) (l, c) = (if x = CHR 0x0A then track xs (Suc l, 1) else track xs (l, Suc c))"

definition scan_tracked :: "(char \<Rightarrow> bool) \<Rightarrow> cursor \<Rightarrow> string \<times> cursor" where
  "scan_tracked p st =
     (let taken = takeWhile p (rest st); lc = track taken (line st, column st)
      in (taken, \<lparr>rest = dropWhile p (rest st), line = fst lc, column = snd lc\<rparr>))"

text \<open>The loops that only count columns (\<^verbatim>\<open>pos++; column++\<close>).\<close>

definition scan_plain :: "(char \<Rightarrow> bool) \<Rightarrow> cursor \<Rightarrow> string \<times> cursor" where
  "scan_plain p st =
     (let taken = takeWhile p (rest st)
      in (taken, st\<lparr>rest := dropWhile p (rest st), column := column st + length taken\<rparr>))"

definition skipWhitespace :: "cursor \<Rightarrow> cursor" where
  "skipWhitespace st = snd (scan_tracked is_space st)"

text \<open>\<open>consume\<close> returns the moved cursor for \<open>true\<close> and \<open>None\<close> for \<open>false\<close>.\<close>

definition consume :: "string \<Rightarrow> cursor \<Rightarrow> cursor option" where
  "consume expected st =
     (if prefix expected (rest st)
      then Some (st\<lparr>rest := drop (length expected) (rest st),
                    column := column st + length expected\<rparr>)
      else None)"

section \<open>The markup parser (xml-parser.ts)\<close>

datatype node =
    Element (tag: string) (attributes: "(string \<times> string) list") (children: "node list")
  | TextNode string

datatype txml_error = TXMLParseError string nat nat

text \<open>
  \<open>attributes[name] = value\<close> on a plain object: an existing key keeps its
  place, a new key is added last, and the key \<^verbatim>\<open>__proto__\<close> reaches the
  prototype setter, which ignores a string.  The list holds the keys in the
  order of insertion.  That is the order in which JavaScript enumerates them,
  except for keys that are array indices (\<^verbatim>\<open>"0"\<close>, \<^verbatim>\<open>"1"\<close>, ...), which JavaScript
  enumerates first, in ascending order.
\<close>

definition assign :: "string \<Rightarrow> string \<Rightarrow> (string \<times> string) list \<Rightarrow> (string \<times> string) list" where
  "assign name v obj = (if name = ''__proto__'' then obj else AList.update name v obj)"

definition parseTagName :: "cursor \<Rightarrow> string \<times> cursor" where
  "parseTagName st = scan_plain is_ident st"

definition parseAttributeName :: "cursor \<Rightarrow> string \<times> cursor" where
  "parseAttributeName st = scan_plain is_ident st"

definition parseAttributeValue :: "cursor \<Rightarrow> txml_error + (string \<times> cursor)" where
  "parseAttributeValue st =
     (case (case consume ''\"'' st of
              Some st1 \<Rightarrow> Some (CHR ''\"'', st1)
            | None \<Rightarrow> (case consume [CHR 0x27] st of
                         Some st1 \<Rightarrow> Some (CHR 0x27, st1)
                       | None \<Rightarrow> None)) of
        None \<Rightarrow> Inl (TXMLParseError ''Expected quoted attribute value'' (line st) (column st))
      | Some (quote, st1) \<Rightarrow>
          (let (v, st2) = scan_tracked (\<lambda>c. c \<noteq> quote) st1
           in case consume [quote] st2 of
                None \<Rightarrow> Inl (TXMLParseError ''Unclosed attribute value'' (line st2) (column st2))
              | Some st3 \<Rightarrow> Inr (v, st3)))"


lemma rest_scan_tracked [simp]: "rest (snd (scan_tracked p st)) = dropWhile p (rest st)"
  by (simp add: scan_tracked_def Let_def)

lemma fst_scan_tracked [simp]: "fst (scan_tracked p st) = takeWhile p (rest st)"
  by (simp add: scan_tracked_def Let_def)

lemma rest_scan_plain [simp]: "rest (snd (scan_plain p st)) = dropWhile p (rest st)"
  by (simp add: scan_plain_def Let_def)

lemma fst_scan_plain [simp]: "fst (scan_plain p st) = takeWhile p (rest st)"
  by (simp add: scan_plain_def Let_def)

lemma scan_tracked_eq:
  "scan_tracked p st = (t, st') \<Longrightarrow> t = takeWhile p (rest st) \<and> rest st' = dropWhile p (rest st)"
  by (auto simp: scan_tracked_def Let_def)

lemma scan_plain_eq:
  "scan_plain p st = (t, st') \<Longrightarrow> t = takeWhile p (rest st) \<and> rest st' = dropWhile p (rest st)"
  by (auto simp: scan_plain_def Let_def)

lemma rest_skipWhitespace [simp]: "rest (skipWhitespace st) = dropWhile is_space (rest st)"
  by (simp add: skipWhitespace_def)

lemma consume_rest: "consume e st = Some st' \<Longrightarrow> rest st = e @ rest st'"
  by (auto simp: consume_def prefix_def split: if_splits)

lemma consume_length: "consume e st = Some st' \<Longrightarrow> length (rest st') + length e = length (rest st)"
  by (drule consume_rest) simp

lemma parseAttributeValue_rest:
  assumes "parseAttributeValue st = Inr (v, st')"
  shows "\<exists>q. (q = CHR ''\"'' \<or> q = CHR 0x27) \<and> q \<notin> set v \<and> rest st = q # v @ q # rest st'"
proof -
  from assms obtain q st1 st2 where
    q: "q = CHR ''\"'' \<or> q = CHR 0x27" and c1: "consume [q] st = Some st1"
    and s: "scan_tracked (\<lambda>c. c \<noteq> q) st1 = (v, st2)" and c2: "consume [q] st2 = Some st'"
    unfolding parseAttributeValue_def
    by (auto split: option.splits prod.splits)
  have v: "v = takeWhile (\<lambda>c. c \<noteq> q) (rest st1)" and r2: "rest st2 = dropWhile (\<lambda>c. c \<noteq> q) (rest st1)"
    using fst_scan_tracked[of "\<lambda>c. c \<noteq> q" st1] rest_scan_tracked[of "\<lambda>c. c \<noteq> q" st1] s by simp_all
  have "rest st1 = v @ rest st2" unfolding v r2 by simp
  moreover have "rest st = q # rest st1" using consume_rest[OF c1] by simp
  moreover have "rest st2 = q # rest st'" using consume_rest[OF c2] by simp
  moreover have "q \<notin> set v" unfolding v by (auto dest: set_takeWhileD)
  ultimately show ?thesis using q by auto
qed

lemma parseAttributeValue_length:
  "parseAttributeValue st = Inr (v, st') \<Longrightarrow> length (rest st') < length (rest st)"
  by (drule parseAttributeValue_rest) auto

function parseAttributes_loop ::
  "cursor \<Rightarrow> (string \<times> string) list \<Rightarrow> txml_error + ((string \<times> string) list \<times> cursor)" where
  "parseAttributes_loop st attrs =
     (if rest st \<noteq> [] \<and> hd (rest st) \<noteq> CHR ''>'' \<and> hd (rest st) \<noteq> CHR ''/'' then
        (let (name, st1) = parseAttributeName st
         in case consume ''='' st1 of
              None \<Rightarrow> Inl (TXMLParseError ''Expected = after attribute name'' (line st1) (column st1))
            | Some st2 \<Rightarrow>
                (case parseAttributeValue st2 of
                   Inl e \<Rightarrow> Inl e
                 | Inr (v, st3) \<Rightarrow> parseAttributes_loop (skipWhitespace st3) (assign name v attrs)))
      else Inr (attrs, st))"
  by pat_completeness auto
termination
proof (relation "measure (\<lambda>(st, attrs). length (rest st))", goal_cases)
  case 1
  show ?case by simp
next
  case (2 st attrs x name st1 st2 y v st3)
  from 2 have a: "rest st1 = dropWhile is_ident (rest st)"
    by (metis parseAttributeName_def rest_scan_plain snd_conv)
  have b: "length (rest st2) < length (rest st1)"
    using consume_length[OF 2(4)] by simp
  have c: "length (rest st3) < length (rest st2)"
    using parseAttributeValue_length[of st2 v st3] 2 by simp
  have "length (dropWhile is_space (rest st3)) \<le> length (rest st3)"
    by (rule length_dropWhile_le)
  moreover have "length (rest st1) \<le> length (rest st)"
    unfolding a by (rule length_dropWhile_le)
  ultimately show ?case using b c by simp
qed

declare parseAttributes_loop.simps [simp del]

definition parseAttributes :: "cursor \<Rightarrow> txml_error + ((string \<times> string) list \<times> cursor)" where
  "parseAttributes st = parseAttributes_loop (skipWhitespace st) []"

fun skipComment_loop :: "string \<Rightarrow> nat \<Rightarrow> nat \<Rightarrow> cursor" where
  "skipComment_loop [] l c = \<lparr>rest = [], line = l, column = c\<rparr>"
| "skipComment_loop (x # xs) l c =
     (if prefix ''-->'' (x # xs) then \<lparr>rest = drop 3 (x # xs), line = l, column = c + 3\<rparr>
      else if x = CHR 0x0A then skipComment_loop xs (Suc l) 1
      else skipComment_loop xs l (Suc c))"

definition skipComment :: "cursor \<Rightarrow> cursor" where
  "skipComment st = skipComment_loop (drop 4 (rest st)) (line st) (column st + 4)"

definition parseText :: "cursor \<Rightarrow> string \<times> cursor" where
  "parseText st = scan_tracked (\<lambda>c. c \<noteq> CHR ''<'') st"

lemma skipComment_loop_length: "length (rest (skipComment_loop s l c)) \<le> length s"
  by (induction s l c rule: skipComment_loop.induct) auto

lemma skipComment_length:
  "prefix ''<!--'' (rest st) \<Longrightarrow> length (rest (skipComment st)) < length (rest st)"
  using skipComment_loop_length[of "drop 4 (rest st)" "line st" "column st + 4"]
  by (auto simp: skipComment_def prefix_def)

lemma parseAttributes_loop_length:
  "parseAttributes_loop st attrs = Inr (attrs', st') \<Longrightarrow> length (rest st') \<le> length (rest st)"
proof (induction st attrs rule: parseAttributes_loop.induct)
  case (1 st attrs)
  show ?case
  proof (cases "rest st \<noteq> [] \<and> hd (rest st) \<noteq> CHR ''>'' \<and> hd (rest st) \<noteq> CHR ''/''")
    case False
    with "1.prems" show ?thesis by (simp add: parseAttributes_loop.simps[of st])
  next
    case True
    obtain name st1 where n: "parseAttributeName st = (name, st1)" by (cases "parseAttributeName st")
    from True n "1.prems" obtain st2 v st3 where
      c: "consume ''='' st1 = Some st2" and pv: "parseAttributeValue st2 = Inr (v, st3)"
      and rec: "parseAttributes_loop (skipWhitespace st3) (assign name v attrs) = Inr (attrs', st')"
      by (simp add: parseAttributes_loop.simps[of st] split: option.splits sum.splits prod.splits)
    have "length (rest st') \<le> length (rest (skipWhitespace st3))"
      using "1.IH"[OF True n[symmetric] refl c pv refl rec] .
    also have "\<dots> \<le> length (rest st3)" by (simp add: length_dropWhile_le)
    also have "\<dots> \<le> length (rest st2)" using parseAttributeValue_length[OF pv] by simp
    also have "\<dots> \<le> length (rest st1)" using consume_length[OF c] by simp
    also have "\<dots> \<le> length (rest st)"
      using n rest_scan_plain[of is_ident st] by (simp add: parseAttributeName_def length_dropWhile_le)
    finally show ?thesis .
  qed
qed


function parseElement :: "cursor \<Rightarrow> txml_error + (node \<times> cursor)"
  and parseChildren :: "cursor \<Rightarrow> node list \<Rightarrow> txml_error + (node list \<times> cursor)" where
  "parseElement st =
     (case consume ''<'' st of
        None \<Rightarrow> Inl (TXMLParseError ''Expected <'' (line st) (column st))
      | Some st1 \<Rightarrow>
          (let (tg, st2) = parseTagName st1
           in case parseAttributes st2 of
                Inl e \<Rightarrow> Inl e
              | Inr (attrs, st3) \<Rightarrow>
                  (case consume ''/>'' st3 of
                     Some st4 \<Rightarrow> Inr (Element tg attrs [], st4)
                   | None \<Rightarrow>
                       (case consume ''>'' st3 of
                          None \<Rightarrow> Inl (TXMLParseError ''Expected > or />'' (line st3) (column st3))
                        | Some st4 \<Rightarrow>
                            (case parseChildren st4 [] of
                               Inl e \<Rightarrow> Inl e
                             | Inr (cs, st5) \<Rightarrow>
                                 (case consume ''</'' st5 of
                                    None \<Rightarrow> Inl (TXMLParseError ''Expected closing tag''
                                                   (line st5) (column st5))
                                  | Some st6 \<Rightarrow>
                                      (let (closingTag, st7) = parseTagName st6
                                       in if closingTag \<noteq> tg
                                          then Inl (TXMLParseError
                                                 (''Mismatched closing tag: expected </'' @ tg @
                                                  ''> but found </'' @ closingTag @ ''>'')
                                                 (line st7) (column st7))
                                          else (case consume ''>'' st7 of
                                                  None \<Rightarrow> Inl (TXMLParseError
                                                            ''Expected > in closing tag''
                                                            (line st7) (column st7))
                                                | Some st8 \<Rightarrow> Inr (Element tg attrs cs, st8)))))))))"
| "parseChildren st cs =
     (if rest st \<noteq> [] then
        (let st1 = skipWhitespace st
         in if prefix ''</'' (rest st1) then Inr (cs, st1)
            else if rest st1 \<noteq> [] \<and> hd (rest st1) = CHR ''<'' then
              (if prefix ''<!--'' (rest st1) then parseChildren (skipComment st1) cs
               else (case parseElement st1 of
                       Inl e \<Rightarrow> Inl e
                     | Inr (el, st2) \<Rightarrow> parseChildren st2 (cs @ [el])))
            else
              (let (tx, st2) = parseText st1
               in parseChildren st2 (if trim tx \<noteq> [] then cs @ [TextNode tx] else cs)))
      else Inr (cs, st))"
  by pat_completeness auto


lemma parseElement_dom_cases:
  assumes d: "parseElement_parseChildren_dom (Inl st)" and r: "parseElement st = Inr (el, st')"
  obtains (selfclose) st1 tg st2 attrs st3 where
      "consume ''<'' st = Some st1" "parseTagName st1 = (tg, st2)"
      "parseAttributes st2 = Inr (attrs, st3)" "consume ''/>'' st3 = Some st'"
      "el = Element tg attrs []"
  | (paired) st1 tg st2 attrs st3 st4 cs st5 st6 st7 where
      "consume ''<'' st = Some st1" "parseTagName st1 = (tg, st2)"
      "parseAttributes st2 = Inr (attrs, st3)" "consume ''/>'' st3 = None"
      "consume ''>'' st3 = Some st4" "parseChildren st4 [] = Inr (cs, st5)"
      "consume ''</'' st5 = Some st6" "parseTagName st6 = (tg, st7)"
      "consume ''>'' st7 = Some st'" "el = Element tg attrs cs"
  using r unfolding parseElement.psimps[OF d]
  by (auto split: option.splits sum.splits prod.splits if_splits simp: Let_def)

lemma parseTagName_length: "parseTagName st = (t, st') \<Longrightarrow> length (rest st') \<le> length (rest st)"
  using rest_scan_plain[of is_ident st] by (simp add: parseTagName_def length_dropWhile_le)

lemma parseAttributes_length:
  "parseAttributes st = Inr (attrs, st') \<Longrightarrow> length (rest st') \<le> length (rest st)"
  unfolding parseAttributes_def
  using parseAttributes_loop_length[of "skipWhitespace st" "[]" attrs st']
    length_dropWhile_le[of is_space "rest st"]
  by simp

lemma parseText_length: "parseText st = (t, st') \<Longrightarrow> length (rest st') \<le> length (rest st)"
  using rest_scan_tracked[of "\<lambda>c. c \<noteq> CHR ''<''" st] by (simp add: parseText_def length_dropWhile_le)

lemma parseText_progress:
  assumes "parseText st = (t, st')" "rest st \<noteq> []" "hd (rest st) \<noteq> CHR ''<''"
  shows "length (rest st') < length (rest st)"
proof -
  obtain x xs where x: "rest st = x # xs" using assms(2) by (cases "rest st") auto
  have "rest st' = dropWhile (\<lambda>c. c \<noteq> CHR ''<'') (rest st)"
    using scan_tracked_eq[of "\<lambda>c. c \<noteq> CHR ''<''" st t st'] assms by (simp add: parseText_def)
  then have "rest st' = dropWhile (\<lambda>c. c \<noteq> CHR ''<'') xs"
    using x assms(3) by simp
  then show ?thesis using length_dropWhile_le[of "\<lambda>c. c \<noteq> CHR ''<''" xs] x by simp
qed

lemma parse_dom_length:
  "parseElement_parseChildren_dom (Inl st) \<Longrightarrow>
     (\<forall>el st'. parseElement st = Inr (el, st') \<longrightarrow> length (rest st') < length (rest st))"
  "parseElement_parseChildren_dom (Inr (st, cs)) \<Longrightarrow>
     (\<forall>cs' st'. parseChildren st cs = Inr (cs', st') \<longrightarrow> length (rest st') \<le> length (rest st))"
proof (induction st and st cs rule: parseElement_parseChildren.pinduct)
  case (1 st)
  show ?case
  proof (intro allI impI)
    fix el st' assume r: "parseElement st = Inr (el, st')"
    from "1.hyps" r show "length (rest st') < length (rest st)"
    proof (cases rule: parseElement_dom_cases)
      case (selfclose st1 tg st2 attrs st3)
      then show ?thesis
        using consume_length[of "''<''" st st1] parseTagName_length[of st1 tg st2]
          parseAttributes_length[of st2 attrs st3] consume_length[of "''/>''" st3 st']
        by simp
    next
      case (paired st1 tg st2 attrs st3 st4 cs st5 st6 st7)
      have "length (rest st5) \<le> length (rest st4)"
        using "1.IH"[OF paired(1) paired(2)[symmetric] refl paired(3) refl paired(4) paired(5)]
          paired(6) by blast
      then show ?thesis
        using consume_length[of "''<''" st st1] parseTagName_length[of st1 tg st2]
          parseAttributes_length[of st2 attrs st3] consume_length[of "''>''" st3 st4]
          consume_length[of "''</''" st5 st6] parseTagName_length[of st6 tg st7]
          consume_length[of "''>''" st7 st'] paired
        by simp
    qed
  qed
next
  case (2 st cs)
  show ?case
  proof (intro allI impI)
    fix cs' st' assume r: "parseChildren st cs = Inr (cs', st')"
    note eq = parseChildren.psimps[OF "2.hyps"]
    show "length (rest st') \<le> length (rest st)"
    proof (cases "rest st = []")
      case True
      with r eq show ?thesis by simp
    next
      case ne: False
      define st1 where "st1 = skipWhitespace st"
      have l1: "length (rest st1) \<le> length (rest st)"
        by (simp add: st1_def length_dropWhile_le)
      show ?thesis
      proof (cases "prefix ''</'' (rest st1)")
        case True
        with r eq ne have "st' = st1" by (simp add: Let_def st1_def[symmetric])
        with l1 show ?thesis by simp
      next
        case nc: False
        show ?thesis
        proof (cases "rest st1 \<noteq> [] \<and> hd (rest st1) = CHR ''<''")
          case lt: True
          show ?thesis
          proof (cases "prefix ''<!--'' (rest st1)")
            case True
            with r eq ne nc lt have "parseChildren (skipComment st1) cs = Inr (cs', st')"
              by (simp add: Let_def st1_def[symmetric])
            then have "length (rest st') \<le> length (rest (skipComment st1))"
              using "2.IH"(1)[OF ne st1_def nc lt True] by blast
            then show ?thesis using skipComment_length[OF True] l1 by simp
          next
            case False
            with r eq ne nc lt obtain el st2 where
              pe: "parseElement st1 = Inr (el, st2)" and
              pc: "parseChildren st2 (cs @ [el]) = Inr (cs', st')"
              by (auto simp: Let_def st1_def[symmetric] split: sum.splits)
            have "length (rest st2) < length (rest st1)"
              using "2.IH"(2)[OF ne st1_def nc lt False] pe by blast
            moreover have "length (rest st') \<le> length (rest st2)"
              using "2.IH"(3)[OF ne st1_def nc lt False pe refl] pc by blast
            ultimately show ?thesis using l1 by simp
          qed
        next
          case False
          obtain tx st2 where pt: "parseText st1 = (tx, st2)" by (cases "parseText st1")
          with r eq ne nc False have
            pc: "parseChildren st2 (if trim tx \<noteq> [] then cs @ [TextNode tx] else cs) = Inr (cs', st')"
            by (simp add: Let_def st1_def[symmetric])
          have "length (rest st') \<le> length (rest st2)"
            using "2.IH"(4)[OF ne st1_def nc False pt[symmetric] refl] pc by blast
          then show ?thesis using parseText_length[OF pt] l1 by simp
        qed
      qed
    qed
  qed
qed

lemma parseElement_parseChildren_total: "All parseElement_parseChildren_dom"
proof (relation "measure (\<lambda>x. case x of Inl st \<Rightarrow> 2 * length (rest st)
                                    | Inr (st, cs) \<Rightarrow> 2 * length (rest st) + 1)", goal_cases)
  case 1
  show ?case by simp
next
  case (2 st st1 x tg st2 b attrs st3 st4)
  then show ?case
    using consume_length[of "''<''" st st1] parseTagName_length[of st1 tg st2]
      parseAttributes_length[of st2 attrs st3] consume_length[of "''>''" st3 st4]
    by simp
next
  case (3 st cs st1)
  then show ?case
    using skipComment_length[of st1] length_dropWhile_le[of is_space "rest st"] by simp
next
  case (4 st cs st1)
  then show ?case
    using length_dropWhile_le[of is_space "rest st"] by simp
next
  case (5 st cs st1 b el st2)
  then have "length (rest st2) < length (rest st1)"
    using parse_dom_length(1)[of st1] by auto
  then show ?case
    using 5 length_dropWhile_le[of is_space "rest st"] by simp
next
  case (6 st cs st1 x tx st2)
  have l1: "length (rest st1) \<le> length (rest st)"
    using 6 by (simp add: length_dropWhile_le)
  have pt: "parseText st1 = (tx, st2)" using 6 by simp
  show ?case
  proof (cases "rest st1 = []")
    case True
    then have "rest st2 = []"
      using pt scan_tracked_eq[of "\<lambda>c. c \<noteq> CHR ''<''" st1 tx st2] by (simp add: parseText_def)
    then show ?thesis using 6 by simp
  next
    case False
    then have "length (rest st2) < length (rest st1)"
      using parseText_progress[OF pt] 6 by simp
    then show ?thesis using l1 by simp
  qed
qed

termination parseElement
  by (rule parseElement_parseChildren_total)

declare parseElement.simps [simp del] parseChildren.simps [simp del]

text \<open>\<open>parse\<close>, and \<open>parseTXML\<close>, which builds a parser on the text and calls it.\<close>

definition parse :: "string \<Rightarrow> txml_error + node" where
  "parse xml =
     (let st = skipWhitespace \<lparr>rest = trim xml, line = 1, column = 1\<rparr>
      in if rest st = [] \<or> hd (rest st) \<noteq> CHR ''<''
         then Inl (TXMLParseError ''Expected XML document to start with <'' (line st) (column st))
         else (case parseElement st of
                 Inl e \<Rightarrow> Inl e
               | Inr (rootElement, st1) \<Rightarrow>
                   if tag rootElement \<noteq> ''App''
                   then Inl (TXMLParseError ''Root element must be <App>'' (line st1) (column st1))
                   else (let st2 = skipWhitespace st1
                         in if rest st2 \<noteq> []
                            then Inl (TXMLParseError ''Unexpected content after root element''
                                   (line st2) (column st2))
                            else Inr rootElement)))"

definition parseTXML :: "string \<Rightarrow> txml_error + node" where
  "parseTXML xml = parse xml"


section \<open>The stylesheet parser (tss-parser.ts)\<close>

datatype tss_error = TSSParseError string nat nat

record TSSRule =
  selector :: string
  properties :: "(string \<times> string) list"
  specificity :: nat

record TSSStylesheet =
  variables :: "(string \<times> string) list"
  rules :: "TSSRule list"

text \<open>\<open>selector.split(/\s+/)\<close>: the pieces between maximal runs of white space.\<close>

function split_ws :: "string \<Rightarrow> string list" where
  "split_ws s =
     (let r = dropWhile (\<lambda>c. \<not> is_space c) s
      in if r = [] then [takeWhile (\<lambda>c. \<not> is_space c) s]
         else takeWhile (\<lambda>c. \<not> is_space c) s # split_ws (dropWhile is_space r))"
  by pat_completeness auto
termination
proof (relation "measure length", goal_cases)
  case 1
  show ?case by simp
next
  case (2 s r)
  then obtain x xs where r: "dropWhile (\<lambda>c. \<not> is_space c) s = x # xs"
    by (cases "dropWhile (\<lambda>c. \<not> is_space c) s") auto
  then have "is_space x" using hd_dropWhile[of "\<lambda>c. \<not> is_space c" s] by auto
  then have "length (dropWhile is_space (x # xs)) \<le> length xs"
    by (simp add: length_dropWhile_le)
  moreover have "length (x # xs) \<le> length s"
    using length_dropWhile_le[of "\<lambda>c. \<not> is_space c" s] r by simp
  ultimately show ?case using 2 r by simp
qed

declare split_ws.simps [simp del]

definition calculateSpecificity :: "string \<Rightarrow> nat" where
  "calculateSpecificity sel =
     fold (\<lambda>part sp.
             if prefix ''#'' part then sp + 100
             else if prefix ''.'' part then sp + 10
             else if part \<noteq> [] \<and> is_alpha (hd part) then sp + 1
             else sp)
          (split_ws sel) 0"

definition parseIdentifier :: "cursor \<Rightarrow> string \<times> cursor" where
  "parseIdentifier st = scan_plain is_ident st"

definition parseSelector :: "cursor \<Rightarrow> string \<times> cursor" where
  "parseSelector st = (let (s, st1) = scan_plain (\<lambda>c. c \<noteq> CHR ''{'') st in (trim s, st1))"

text \<open>
  \<open>parseValue\<close>.  A quoted value runs to the closing quote; at the end of the
  text without one, \<open>slice(start + 1, pos - 1)\<close> drops the last character read.
\<close>

definition parseValue :: "cursor \<Rightarrow> string \<times> cursor" where
  "parseValue st =
     (if rest st \<noteq> [] \<and> (hd (rest st) = CHR ''\"'' \<or> hd (rest st) = CHR 0x27) then
        (let quote = hd (rest st);
             (v, st1) = scan_tracked (\<lambda>c. c \<noteq> quote)
                          (st\<lparr>rest := tl (rest st), column := column st + 1\<rparr>)
         in if rest st1 \<noteq> []
            then (v, st1\<lparr>rest := tl (rest st1), column := column st1 + 1\<rparr>)
            else (butlast v, st1))
      else
        (let (v, st1) = scan_plain (\<lambda>c. c \<noteq> CHR '';'' \<and> c \<noteq> CHR ''}'' \<and> \<not> is_space c) st
         in (trim v, st1)))"

function parseProperties_loop ::
  "cursor \<Rightarrow> (string \<times> string) list \<Rightarrow> tss_error + ((string \<times> string) list \<times> cursor)" where
  "parseProperties_loop st props =
     (if rest st \<noteq> [] \<and> hd (rest st) \<noteq> CHR ''}'' then
        (let st1 = skipWhitespace st
         in if rest st1 \<noteq> [] \<and> hd (rest st1) = CHR ''}'' then Inr (props, st1)
            else
              (let (name, st2) = parseIdentifier st1
               in case consume '':'' st2 of
                    None \<Rightarrow> Inl (TSSParseError ''Expected : after property name''
                                   (line st2) (column st2))
                  | Some st3 \<Rightarrow>
                      (let (v, st4) = parseValue (skipWhitespace st3)
                       in case consume '';'' st4 of
                            None \<Rightarrow> Inl (TSSParseError ''Expected ; after property value''
                                           (line st4) (column st4))
                          | Some st5 \<Rightarrow>
                              parseProperties_loop (skipWhitespace st5) (assign name v props))))
      else Inr (props, st))"
  by pat_completeness auto

lemma parseValue_length: "parseValue st = (v, st') \<Longrightarrow> length (rest st') \<le> length (rest st)"
proof -
  assume a: "parseValue st = (v, st')"
  show ?thesis
  proof (cases "rest st \<noteq> [] \<and> (hd (rest st) = CHR ''\"'' \<or> hd (rest st) = CHR 0x27)")
    case True
    define q where "q = hd (rest st)"
    define st0 where "st0 = st\<lparr>rest := tl (rest st), column := column st + 1\<rparr>"
    obtain w st1 where s: "scan_tracked (\<lambda>c. c \<noteq> q) st0 = (w, st1)"
      by (cases "scan_tracked (\<lambda>c. c \<noteq> q) st0")
    have r1: "rest st1 = dropWhile (\<lambda>c. c \<noteq> q) (tl (rest st))"
      using scan_tracked_eq[OF s] by (simp add: st0_def)
    have "length (rest st1) \<le> length (rest st)"
      unfolding r1 using length_dropWhile_le[of "\<lambda>c. c \<noteq> q" "tl (rest st)"] by simp
    moreover have "rest st' = rest st1 \<or> rest st' = tl (rest st1)"
      using a True s unfolding parseValue_def q_def[symmetric] st0_def[symmetric]
      by (auto simp: Let_def split: if_splits)
    ultimately show ?thesis by auto
  next
    case False
    have "rest (snd (parseValue st)) =
            dropWhile (\<lambda>c. c \<noteq> CHR '';'' \<and> c \<noteq> CHR ''}'' \<and> \<not> is_space c) (rest st)"
      using False unfolding parseValue_def
      by (cases "rest st") (auto simp: Let_def scan_plain_def)
    then have "rest st' = dropWhile (\<lambda>c. c \<noteq> CHR '';'' \<and> c \<noteq> CHR ''}'' \<and> \<not> is_space c) (rest st)"
      using a by simp
    then show ?thesis by (simp add: length_dropWhile_le)
  qed
qed

lemma parseIdentifier_length:
  "parseIdentifier st = (t, st') \<Longrightarrow> length (rest st') \<le> length (rest st)"
  using rest_scan_plain[of is_ident st] by (simp add: parseIdentifier_def length_dropWhile_le)

termination parseProperties_loop
proof (relation "measure (\<lambda>(st, props). length (rest st))", goal_cases)
  case 1
  show ?case by simp
next
  case (2 st props st1 x name st2 st3 y v st4 st5)
  have "length (rest st1) \<le> length (rest st)"
    using 2 by (simp add: length_dropWhile_le)
  moreover have "length (rest st2) \<le> length (rest st1)"
    using parseIdentifier_length[of st1 name st2] 2 by simp
  moreover have "length (rest st3) < length (rest st2)"
    using consume_length[of "'':''" st2 st3] 2 by simp
  moreover have "length (rest st4) \<le> length (rest (skipWhitespace st3))"
    using parseValue_length[of "skipWhitespace st3" v st4] 2 by simp
  moreover have "length (rest (skipWhitespace st3)) \<le> length (rest st3)"
    by (simp add: length_dropWhile_le)
  moreover have "length (rest st5) < length (rest st4)"
    using consume_length[of "'';''" st4 st5] 2 by simp
  moreover have "length (rest (skipWhitespace st5)) \<le> length (rest st5)"
    by (simp add: length_dropWhile_le)
  ultimately show ?case by simp
qed

declare parseProperties_loop.simps [simp del]

definition parseProperties :: "cursor \<Rightarrow> tss_error + ((string \<times> string) list \<times> cursor)" where
  "parseProperties st = parseProperties_loop st []"

text \<open>\<open>parseRule\<close> returns \<open>null\<close> (here \<open>None\<close>) for an empty selector.\<close>

definition parseRule :: "cursor \<Rightarrow> tss_error + (TSSRule option \<times> cursor)" where
  "parseRule st =
     (let (sel, st1) = parseSelector st
      in if sel = [] then Inr (None, st1)
         else (case consume ''{'' st1 of
                 None \<Rightarrow> Inl (TSSParseError ''Expected { after selector'' (line st1) (column st1))
               | Some st2 \<Rightarrow>
                   (case parseProperties st2 of
                      Inl e \<Rightarrow> Inl e
                    | Inr (props, st3) \<Rightarrow>
                        (case consume ''}'' st3 of
                           None \<Rightarrow> Inl (TSSParseError ''Expected } after properties''
                                          (line st3) (column st3))
                         | Some st4 \<Rightarrow>
                             Inr (Some \<lparr>selector = sel, properties = props,
                                        specificity = calculateSpecificity sel\<rparr>, st4)))))"

definition parseVariable :: "cursor \<Rightarrow> tss_error + ((string \<times> string) \<times> cursor)" where
  "parseVariable st =
     (case consume ''--'' st of
        None \<Rightarrow> Inl (TSSParseError ''Expected -- for CSS variable'' (line st) (column st))
      | Some st1 \<Rightarrow>
          (let (name, st2) = parseIdentifier st1
           in case consume '':'' st2 of
                None \<Rightarrow> Inl (TSSParseError ''Expected : after variable name''
                               (line st2) (column st2))
              | Some st3 \<Rightarrow>
                  (let (v, st4) = parseValue (skipWhitespace st3)
                   in case consume '';'' st4 of
                        None \<Rightarrow> Inl (TSSParseError ''Expected ; after variable value''
                                       (line st4) (column st4))
                      | Some st5 \<Rightarrow> Inr ((name, v), st5))))"

text \<open>A call of \<open>consume\<close> whose result is not looked at.\<close>

definition consume_ignored :: "string \<Rightarrow> cursor \<Rightarrow> cursor" where
  "consume_ignored expected st = (case consume expected st of Some st1 \<Rightarrow> st1 | None \<Rightarrow> st)"

text \<open>The declaration inside \<open>:root\<close> that is no variable: read and dropped.\<close>

definition skipRootProperty :: "cursor \<Rightarrow> cursor" where
  "skipRootProperty st =
     consume_ignored '';'' (snd (parseValue (consume_ignored '':'' (snd (parseIdentifier st)))))"

lemma consume_ignored_length: "length (rest (consume_ignored e st)) \<le> length (rest st)"
  by (auto simp: consume_ignored_def dest: consume_length split: option.splits)

lemma parseVariable_length:
  assumes "parseVariable st = Inr (nv, st')"
  shows "length (rest st') < length (rest st)"
proof -
  from assms obtain st1 name st2 st3 v st4 where
    c1: "consume ''--'' st = Some st1" and i: "parseIdentifier st1 = (name, st2)"
    and c2: "consume '':'' st2 = Some st3" and pv: "parseValue (skipWhitespace st3) = (v, st4)"
    and c3: "consume '';'' st4 = Some st'"
    unfolding parseVariable_def
    by (auto simp: Let_def split: option.splits prod.splits)
  show ?thesis
    using consume_length[OF c1] parseIdentifier_length[OF i] consume_length[OF c2]
      parseValue_length[OF pv] consume_length[OF c3] length_dropWhile_le[of is_space "rest st3"]
    by simp
qed

lemma skipRootProperty_length: "length (rest (skipRootProperty st)) \<le> length (rest st)"
proof -
  obtain n st1 where i: "parseIdentifier st = (n, st1)" by (cases "parseIdentifier st")
  obtain v st3 where pv: "parseValue (consume_ignored '':'' st1) = (v, st3)"
    by (cases "parseValue (consume_ignored '':'' st1)")
  show ?thesis
    using parseIdentifier_length[OF i] consume_ignored_length[of "'':''" st1]
      parseValue_length[OF pv] consume_ignored_length[of "'';''" st3] i pv
    by (simp add: skipRootProperty_def)
qed

lemma skipRootProperty_progress:
  assumes "rest st = x # xs" "\<not> is_space x" "x \<noteq> CHR ''}''"
  shows "length (rest (skipRootProperty st)) < length (rest st)"
proof -
  obtain n st1 where i: "parseIdentifier st = (n, st1)" by (cases "parseIdentifier st")
  define st2 where "st2 = consume_ignored '':'' st1"
  obtain v st3 where pv: "parseValue st2 = (v, st3)" by (cases "parseValue st2")
  have r: "skipRootProperty st = consume_ignored '';'' st3"
    using i pv by (simp add: skipRootProperty_def st2_def)
  have l1: "length (rest st1) \<le> length (rest st)" by (rule parseIdentifier_length[OF i])
  have l2: "length (rest st2) \<le> length (rest st1)"
    unfolding st2_def by (rule consume_ignored_length)
  have l3: "length (rest st3) \<le> length (rest st2)" by (rule parseValue_length[OF pv])
  have l4: "length (rest (consume_ignored '';'' st3)) \<le> length (rest st3)"
    by (rule consume_ignored_length)
  have r1: "rest st1 = dropWhile is_ident (rest st)"
    using i scan_plain_eq[of is_ident st n st1] by (simp add: parseIdentifier_def)
  show ?thesis
  proof (cases "is_ident x")
    case True
    then have "length (rest st1) < length (rest st)"
      using r1 assms(1) length_dropWhile_le[of is_ident xs] by simp
    with l2 l3 l4 r show ?thesis by simp
  next
    case nid: False
    then have e1: "rest st1 = x # xs" using r1 assms(1) by simp
    show ?thesis
    proof (cases "x = CHR '':''")
      case True
      then have "consume '':'' st1 = Some (st1\<lparr>rest := xs, column := column st1 + 1\<rparr>)"
        using e1 by (simp add: consume_def)
      then have "rest st2 = xs" by (simp add: st2_def consume_ignored_def)
      with e1 assms(1) l3 l4 r show ?thesis by simp
    next
      case ncolon: False
      then have "consume '':'' st1 = None" using e1 by (simp add: consume_def)
      then have e2: "rest st2 = x # xs" using e1 by (simp add: st2_def consume_ignored_def)
      show ?thesis
      proof (cases "x = CHR '';''")
        case True
        then have "\<not> (rest st2 \<noteq> [] \<and> (hd (rest st2) = CHR ''\"'' \<or> hd (rest st2) = CHR 0x27))"
          using e2 by simp
        then have "rest (snd (parseValue st2)) = x # xs"
          using e2 True unfolding parseValue_def by (auto simp: Let_def scan_plain_def)
        then have e3: "rest st3 = x # xs" using pv by simp
        then have "consume '';'' st3 = Some (st3\<lparr>rest := xs, column := column st3 + 1\<rparr>)"
          using True by (simp add: consume_def)
        then have "rest (consume_ignored '';'' st3) = xs" by (simp add: consume_ignored_def)
        with r assms(1) show ?thesis by simp
      next
        case nsemi: False
        have "length (rest st3) < length (rest st2)"
        proof (cases "x = CHR ''\"'' \<or> x = CHR 0x27")
          case True
          define st0 where "st0 = st2\<lparr>rest := tl (rest st2), column := column st2 + 1\<rparr>"
          obtain w st4 where s: "scan_tracked (\<lambda>c. c \<noteq> x) st0 = (w, st4)"
            by (cases "scan_tracked (\<lambda>c. c \<noteq> x) st0")
          have "rest st4 = dropWhile (\<lambda>c. c \<noteq> x) xs"
            using scan_tracked_eq[OF s] e2 by (simp add: st0_def)
          then have l: "length (rest st4) \<le> length xs" by (simp add: length_dropWhile_le)
          have "rest st3 = rest st4 \<or> rest st3 = tl (rest st4)"
            using pv True s e2 unfolding parseValue_def st0_def
            by (auto simp: Let_def split: if_splits)
          with l e2 show ?thesis by auto
        next
          case False
          then have "rest (snd (parseValue st2)) =
              dropWhile (\<lambda>c. c \<noteq> CHR '';'' \<and> c \<noteq> CHR ''}'' \<and> \<not> is_space c) (x # xs)"
            using e2 unfolding parseValue_def by (auto simp: Let_def scan_plain_def)
          then have "rest st3 = dropWhile (\<lambda>c. c \<noteq> CHR '';'' \<and> c \<noteq> CHR ''}'' \<and> \<not> is_space c) xs"
            using pv nsemi assms by simp
          then show ?thesis using e2 by (simp add: length_dropWhile_le le_imp_less_Suc)
        qed
        with l1 l2 l4 r show ?thesis by simp
      qed
    qed
  qed
qed

function parseRootVariables_loop ::
  "cursor \<Rightarrow> (string \<times> string) list \<Rightarrow> tss_error + ((string \<times> string) list \<times> cursor)" where
  "parseRootVariables_loop st vars =
     (if rest st \<noteq> [] \<and> hd (rest st) \<noteq> CHR ''}'' then
        (let st1 = skipWhitespace st
         in if rest st1 \<noteq> [] \<and> hd (rest st1) = CHR ''}'' then Inr (vars, st1)
            else if prefix ''--'' (rest st1) then
              (case parseVariable st1 of
                 Inl e \<Rightarrow> Inl e
               | Inr ((name, v), st2) \<Rightarrow>
                   parseRootVariables_loop (skipWhitespace st2) (AList.update name v vars))
            else parseRootVariables_loop (skipWhitespace (skipRootProperty st1)) vars)
      else Inr (vars, st))"
  by pat_completeness auto
termination
proof (relation "measure (\<lambda>(st, vars). length (rest st))", goal_cases)
  case 1
  show ?case by simp
next
  case (2 st vars st1 x nv st2 name v)
  then have "length (rest st2) < length (rest st1)"
    using parseVariable_length[of st1 "(name, v)" st2] by simp
  moreover have "length (rest st1) \<le> length (rest st)"
    using 2 by (simp add: length_dropWhile_le)
  moreover have "length (rest (skipWhitespace st2)) \<le> length (rest st2)"
    by (simp add: length_dropWhile_le)
  ultimately show ?case by simp
next
  case (3 st vars st1)
  have l1: "length (rest st1) \<le> length (rest st)"
    using 3 by (simp add: length_dropWhile_le)
  have l2: "length (rest (skipWhitespace (skipRootProperty st1))) \<le> length (rest (skipRootProperty st1))"
    by (simp add: length_dropWhile_le)
  show ?case
  proof (cases "rest st1")
    case Nil
    then have "rest (skipRootProperty st1) = []"
      using skipRootProperty_length[of st1] by simp
    then show ?thesis using 3 by simp
  next
    case (Cons y ys)
    have "dropWhile is_space (rest st) = y # ys" using Cons 3 by simp
    then have "\<not> is_space y" by (simp add: dropWhile_eq_Cons_conv)
    moreover have "y \<noteq> CHR ''}''" using Cons 3 by auto
    ultimately have "length (rest (skipRootProperty st1)) < length (rest st1)"
      using skipRootProperty_progress[OF Cons] by simp
    with l1 l2 show ?thesis by simp
  qed
qed

declare parseRootVariables_loop.simps [simp del]

definition parseRootVariables ::
  "cursor \<Rightarrow> (string \<times> string) list \<Rightarrow> tss_error + ((string \<times> string) list \<times> cursor)" where
  "parseRootVariables st vars =
     (let st1 = skipWhitespace (st\<lparr>rest := drop 5 (rest st), column := column st + 5\<rparr>)
      in case consume ''{'' st1 of
           None \<Rightarrow> Inl (TSSParseError ''Expected { after :root'' (line st1) (column st1))
         | Some st2 \<Rightarrow>
             (case parseRootVariables_loop st2 vars of
                Inl e \<Rightarrow> Inl e
              | Inr (vars', st3) \<Rightarrow>
                  (case consume ''}'' st3 of
                     None \<Rightarrow> Inl (TSSParseError ''Expected } after :root block''
                                    (line st3) (column st3))
                   | Some st4 \<Rightarrow> Inr (vars', st4))))"

text \<open>The block of an at-rule: braces are counted until the depth is back at zero.\<close>

fun skipBlock :: "string \<Rightarrow> nat \<Rightarrow> nat \<Rightarrow> nat \<Rightarrow> cursor" where
  "skipBlock [] depth l c = \<lparr>rest = [], line = l, column = c\<rparr>"
| "skipBlock (x # xs) depth l c =
     (if depth > 0 then
        (let depth' = (if x = CHR ''{'' then depth + 1
                       else if x = CHR ''}'' then depth - 1 else depth)
         in if x = CHR 0x0A then skipBlock xs depth' (Suc l) 1
            else skipBlock xs depth' l (Suc c))
      else \<lparr>rest = x # xs, line = l, column = c\<rparr>)"

definition parseAtRule :: "cursor \<Rightarrow> cursor" where
  "parseAtRule st =
     (let st1 = snd (scan_plain (\<lambda>c. c \<noteq> CHR '';'' \<and> c \<noteq> CHR ''{'') st)
      in if rest st1 \<noteq> [] \<and> hd (rest st1) = CHR ''{''
         then skipBlock (tl (rest st1)) 1 (line st1) (column st1 + 1)
         else (let st2 = snd (scan_plain (\<lambda>c. c \<noteq> CHR '';'') st1)
               in if rest st2 \<noteq> []
                  then st2\<lparr>rest := tl (rest st2), column := column st2 + 1\<rparr>
                  else st2))"

text \<open>
  The loop of \<open>parse\<close>.  It has no bound of its own: \<open>None\<close> is the run that
  never leaves the loop.
\<close>

partial_function (option) parse_loop ::
  "cursor \<Rightarrow> (string \<times> string) list \<Rightarrow> TSSRule list \<Rightarrow> (tss_error + TSSStylesheet) option" where
  "parse_loop st vars rs =
     (if rest st \<noteq> [] then
        (if prefix '':root'' (rest st) then
           (case parseRootVariables st vars of
              Inl e \<Rightarrow> Some (Inl e)
            | Inr (vars', st1) \<Rightarrow> parse_loop (skipWhitespace st1) vars' rs)
         else if hd (rest st) = CHR ''@'' then
           parse_loop (skipWhitespace (parseAtRule st)) vars rs
         else
           (case parseRule st of
              Inl e \<Rightarrow> Some (Inl e)
            | Inr (r, st1) \<Rightarrow>
                parse_loop (skipWhitespace st1) vars
                  (case r of None \<Rightarrow> rs | Some rule \<Rightarrow> rs @ [rule])))
      else Some (Inr \<lparr>variables = vars, rules = rs\<rparr>))"

declare parse_loop.simps [code]

definition tss_parse :: "string \<Rightarrow> (tss_error + TSSStylesheet) option" where
  "tss_parse tss = parse_loop (skipWhitespace \<lparr>rest = tss, line = 1, column = 1\<rparr>) [] []"

definition parseTSS :: "string \<Rightarrow> (tss_error + TSSStylesheet) option" where
  "parseTSS tss = tss_parse tss"




text \<open>
  How \<open>calculateSpecificity\<close> counts.  \<open>selector_parts\<close> are the pieces of the
  selector between white space, as \<open>split(/\s+/)\<close> gives them; a piece is looked
  at once, at its first character: \<open>#\<close>, \<open>.\<close> or a letter \<^verbatim>\<open>[a-zA-Z]\<close>.
\<close>

definition begins_with_hash :: "string \<Rightarrow> bool" where
  "begins_with_hash p \<longleftrightarrow> prefix ''#'' p"

definition begins_with_dot :: "string \<Rightarrow> bool" where
  "begins_with_dot p \<longleftrightarrow> prefix ''.'' p"

definition begins_with_letter :: "string \<Rightarrow> bool" where
  "begins_with_letter p \<longleftrightarrow> p \<noteq> [] \<and> is_alpha (hd p)"

definition selector_parts :: "string \<Rightarrow> string list" where
  "selector_parts sel = split_ws sel"

definition parts_specificity :: "string \<Rightarrow> nat" where
  "parts_specificity sel =
     100 * length (filter begins_with_hash (selector_parts sel))
     + 10 * length (filter begins_with_dot (selector_parts sel))
     + 1 * length (filter begins_with_letter (selector_parts sel))"

lemma part_kinds_exclusive:
  "begins_with_hash p \<Longrightarrow> \<not> begins_with_dot p \<and> \<not> begins_with_letter p"
  "begins_with_dot p \<Longrightarrow> \<not> begins_with_letter p"
  by (cases p; auto simp: begins_with_hash_def begins_with_dot_def begins_with_letter_def is_alpha_def)+

lemma specificity_step:
  "(if prefix ''#'' p then sp + 100
    else if prefix ''.'' p then sp + 10
    else if p \<noteq> [] \<and> is_alpha (hd p) then sp + 1
    else sp) =
   sp + 100 * length (filter begins_with_hash [p]) + 10 * length (filter begins_with_dot [p])
      + length (filter begins_with_letter [p])"
proof -
  consider (i) "begins_with_hash p" | (c) "\<not> begins_with_hash p" "begins_with_dot p"
    | (t) "\<not> begins_with_hash p" "\<not> begins_with_dot p" "begins_with_letter p"
    | (n) "\<not> begins_with_hash p" "\<not> begins_with_dot p" "\<not> begins_with_letter p"
    by blast
  then show ?thesis
  proof cases
    case i
    with part_kinds_exclusive(1)[OF i] show ?thesis
      by (simp add: begins_with_hash_def[symmetric])
  next
    case c
    with part_kinds_exclusive(2)[OF c(2)] show ?thesis
      by (simp add: begins_with_hash_def[symmetric] begins_with_dot_def[symmetric])
  next
    case t
    then show ?thesis
      by (simp add: begins_with_hash_def[symmetric] begins_with_dot_def[symmetric]
          begins_with_letter_def[symmetric])
  next
    case n
    then show ?thesis
      by (simp add: begins_with_hash_def[symmetric] begins_with_dot_def[symmetric]
          begins_with_letter_def[symmetric])
  qed
qed

definition specificity_step_fn :: "string \<Rightarrow> nat \<Rightarrow> nat" where
  "specificity_step_fn part sp =
     (if prefix ''#'' part then sp + 100
      else if prefix ''.'' part then sp + 10
      else if part \<noteq> [] \<and> is_alpha (hd part) then sp + 1
      else sp)"

lemma specificity_fold:
  "fold specificity_step_fn ps acc =
   acc + 100 * length (filter begins_with_hash ps) + 10 * length (filter begins_with_dot ps)
       + length (filter begins_with_letter ps)"
proof (induction ps arbitrary: acc)
  case Nil
  show ?case by simp
next
  case (Cons p ps)
  have "fold specificity_step_fn (p # ps) acc = fold specificity_step_fn ps (specificity_step_fn p acc)"
    by simp
  also have "\<dots> = specificity_step_fn p acc + 100 * length (filter begins_with_hash ps)
      + 10 * length (filter begins_with_dot ps) + length (filter begins_with_letter ps)"
    by (rule Cons.IH)
  also have "specificity_step_fn p acc = acc + 100 * length (filter begins_with_hash [p])
      + 10 * length (filter begins_with_dot [p]) + length (filter begins_with_letter [p])"
    unfolding specificity_step_fn_def by (rule specificity_step)
  finally show ?case by simp
qed

lemma calculateSpecificity_parts: "calculateSpecificity sel = parts_specificity sel"
  using specificity_fold[of "split_ws sel" 0]
  by (simp add: calculateSpecificity_def parts_specificity_def selector_parts_def
      specificity_step_fn_def[abs_def])

lemma parseRule_specificity:
  "parseRule st = Inr (Some r, st') \<Longrightarrow> specificity r = parts_specificity (selector r)"
  unfolding parseRule_def
  by (auto simp: Let_def calculateSpecificity_parts split: prod.splits if_splits option.splits sum.splits)

lemma parse_loop_specificity:
  assumes run: "parse_loop st vars rs = Some (Inr sheet)"
    and init: "\<forall>r \<in> set rs. specificity r = parts_specificity (selector r)"
  shows "\<forall>r \<in> set (rules sheet). specificity r = parts_specificity (selector r)"
proof -
  define good where "good = (\<lambda>r :: TSSRule. specificity r = parts_specificity (selector r))"
  define Q where "Q = (\<lambda>(st :: cursor) (vars :: (string \<times> string) list) rs (y :: tss_error + TSSStylesheet).
     \<forall>sheet. y = Inr sheet \<longrightarrow> (\<forall>r \<in> set rs. good r) \<longrightarrow> (\<forall>r \<in> set (rules sheet). good r))"
  have "Q st vars rs (Inr sheet)"
  proof (rule parse_loop.raw_induct[where P = Q, OF _ run], goal_cases)
    case (1 loop st vars rs y)
    show ?case
    proof (cases y)
      case (Inl e)
      then show ?thesis by (simp add: Q_def)
    next
      case (Inr sh)
      show ?thesis
      proof (cases "rest st = []")
        case True
        with 1(2) show ?thesis by (auto simp: Q_def)
      next
        case ne: False
        show ?thesis
        proof (cases "prefix '':root'' (rest st)")
          case True
          with ne 1(2) Inr obtain vars' st1 where "loop (skipWhitespace st1) vars' rs = Some y"
            by (auto split: sum.splits)
          from 1(1)[OF this] show ?thesis by (simp add: Q_def)
        next
          case nr: False
          show ?thesis
          proof (cases "hd (rest st) = CHR ''@''")
            case True
            with ne nr 1(2) have "loop (skipWhitespace (parseAtRule st)) vars rs = Some y"
              by simp
            from 1(1)[OF this] show ?thesis by (simp add: Q_def)
          next
            case False
            with ne nr 1(2) Inr obtain r st1 where pr: "parseRule st = Inr (r, st1)"
              and l: "loop (skipWhitespace st1) vars
                        (case r of None \<Rightarrow> rs | Some rule \<Rightarrow> rs @ [rule]) = Some y"
              by (auto split: sum.splits)
            have "r = Some rule \<Longrightarrow> good rule" for rule
              using parseRule_specificity[of st rule st1] pr by (simp add: good_def)
            with 1(1)[OF l] show ?thesis
              by (cases r) (auto simp: Q_def)
          qed
        qed
      qed
    qed
  qed
  with init show ?thesis by (simp add: Q_def good_def)
qed

lemma parseTSS_specificity:
  "parseTSS tss = Some (Inr sheet) \<Longrightarrow>
     \<forall>r \<in> set (rules sheet). specificity r = parts_specificity (selector r)"
  unfolding parseTSS_def tss_parse_def by (erule parse_loop_specificity) simp

lemma parse_loop_returns_not_brace:
  assumes run: "parse_loop st vars rs = Some y"
  shows "\<not> prefix ''{'' (rest st)"
proof (rule parse_loop.raw_induct[where P = "\<lambda>st vars rs y. \<not> prefix ''{'' (rest st)", OF _ run],
    goal_cases)
  case (1 loop st vars rs y)
  show ?case
  proof
    assume b: "prefix ''{'' (rest st)"
    then obtain xs where r: "rest st = CHR ''{'' # xs" by (auto simp: prefix_def)
    have pr: "parseRule st = Inr (None, st)"
      using r by (simp add: parseRule_def parseSelector_def scan_plain_def Let_def trim_def)
    have sw: "skipWhitespace st = st"
      using r by (simp add: skipWhitespace_def scan_tracked_def Let_def is_space_def)
    have "loop st vars rs = Some y"
      using 1(2) r pr sw by simp
    from 1(1)[OF this] b show False by simp
  qed
qed

lemma parse_loop_brace_diverges:
  "prefix ''{'' (rest st) \<Longrightarrow> parse_loop st vars rs = None"
  using parse_loop_returns_not_brace[of st vars rs] by (cases "parse_loop st vars rs") auto



section \<open>The widget renderers (widget-renderers.ts)\<close>

text \<open>
  \<open>WidgetState.value\<close> has type \<open>any\<close>; the renderers store a string, a number
  or a boolean there.  \<open>truthy\<close> is the test of \<^verbatim>\<open>v || d\<close>.
\<close>

datatype jsvalue = VString string | VNumber real | VBoolean bool

fun truthy :: "jsvalue \<Rightarrow> bool" where
  "truthy (VString s) = (s \<noteq> [])"
| "truthy (VNumber n) = (n \<noteq> 0)"
| "truthy (VBoolean b) = b"

record WidgetState =
  state_id :: string
  state_value :: jsvalue
  lastFrame :: nat

text \<open>
  What calling \<open>handler.callback()\<close> does to the renderer: it returns, or it
  throws the given value.
\<close>

datatype callback = Returns | Throws string

record EventHandler =
  handler_name :: string
  handler_callback :: callback

record RenderContext =
  state :: "string \<rightharpoonup> WidgetState"
  eventHandlers :: "string \<rightharpoonup> EventHandler"
  stylesheet :: TSSStylesheet
  frameNumber :: nat
  currentPath :: "string list"

record StyleValue =
  style_type :: string
  style_value :: jsvalue

type_synonym ComputedStyle = "string \<rightharpoonup> StyleValue"

text \<open>
  The calls into the GUI binding, in the order they are made.  The binding is a
  parameter: from the calls made so far, the last one being the current call,
  it gives the boolean the call returns and, for \<open>InputTextWithHint\<close>, the text
  it leaves in the buffer.  Numeric arguments are recorded as the attribute
  text handed to \<open>parseFloat\<close>.
\<close>

datatype imgui_call =
    ImGui_Begin string
  | ImGui_End
  | ImGui_Text string
  | ImGui_TextColored jsvalue string
  | ImGui_Button string
  | ImGui_InputTextWithHint string string jsvalue
  | ImGui_SliderFloat string jsvalue string string
  | ImGui_Checkbox string jsvalue
  | ImGui_SameLine string string
  | ImGui_Spacing
  | ImGui_Separator
  | ImGui_SetNextItemWidth jsvalue
  | ImGui_SetNextWindowSize jsvalue jsvalue

type_synonym imgui = "imgui_call list \<Rightarrow> bool \<times> string"

text \<open>
  What a renderer works on: the context and the calls made so far.  A throw
  carries the thrown value and the frame as it was left.
\<close>

type_synonym frame = "RenderContext \<times> imgui_call list"

datatype exn = Exn string

type_synonym thrown = "exn \<times> frame"

definition imgui_call :: "imgui \<Rightarrow> imgui_call \<Rightarrow> imgui_call list \<Rightarrow> (bool \<times> string) \<times> imgui_call list" where
  "imgui_call gui c tr = (gui (tr @ [c]), tr @ [c])"

text \<open>\<^verbatim>\<open>element.attributes.k || d\<close>: a missing or empty attribute gives the default.\<close>

definition attr_or :: "(string \<times> string) list \<Rightarrow> string \<Rightarrow> string \<Rightarrow> string" where
  "attr_or attrs k d = (case map_of attrs k of Some v \<Rightarrow> (if v = [] then d else v) | None \<Rightarrow> d)"

fun join :: "string \<Rightarrow> string list \<Rightarrow> string" where
  "join sep [] = []"
| "join sep [x] = x"
| "join sep (x # y # ys) = x @ sep @ join sep (y # ys)"

fun text_children :: "node list \<Rightarrow> string list" where
  "text_children [] = []"
| "text_children (TextNode s # cs) = s # text_children cs"
| "text_children (Element t a c # cs) = text_children cs"

definition getTextContent :: "node \<Rightarrow> string" where
  "getTextContent element = trim (concat (text_children (children element)))"

definition getComputedStyle :: "node \<Rightarrow> RenderContext \<Rightarrow> ComputedStyle" where
  "getComputedStyle element context = Map.empty"

definition generateId :: "node \<Rightarrow> RenderContext \<Rightarrow> string" where
  "generateId element context = join ''/'' (currentPath context @ [tag element])"

definition handleEvent :: "string \<Rightarrow> frame \<Rightarrow> thrown + frame" where
  "handleEvent eventName fr =
     (case eventHandlers (fst fr) eventName of
        Some handler \<Rightarrow>
          (case handler_callback handler of Returns \<Rightarrow> Inr fr | Throws e \<Rightarrow> Inl (Exn e, fr))
      | None \<Rightarrow> Inr fr)"

text \<open>\<^verbatim>\<open>if (style.width && style.width.type === 'number') ImGui.SetNextItemWidth(...)\<close>\<close>

definition applyWidth :: "imgui \<Rightarrow> ComputedStyle \<Rightarrow> imgui_call list \<Rightarrow> imgui_call list" where
  "applyWidth gui style tr =
     (case style ''width'' of
        Some w \<Rightarrow> (if style_type w = ''number''
                   then snd (imgui_call gui (ImGui_SetNextItemWidth (style_value w)) tr) else tr)
      | None \<Rightarrow> tr)"

definition renderHead :: "imgui \<Rightarrow> node \<Rightarrow> frame \<Rightarrow> thrown + frame" where
  "renderHead gui element fr = Inr fr"

definition renderText :: "imgui \<Rightarrow> node \<Rightarrow> frame \<Rightarrow> thrown + frame" where
  "renderText gui element fr =
     (let txt = getTextContent element; style = getComputedStyle element (fst fr)
      in case style ''color'' of
           Some c \<Rightarrow>
             (if style_type c = ''color''
              then Inr (fst fr, snd (imgui_call gui (ImGui_TextColored (style_value c) txt) (snd fr)))
              else Inr (fst fr, snd (imgui_call gui (ImGui_Text txt) (snd fr))))
         | None \<Rightarrow> Inr (fst fr, snd (imgui_call gui (ImGui_Text txt) (snd fr))))"

definition renderButton :: "imgui \<Rightarrow> node \<Rightarrow> frame \<Rightarrow> thrown + frame" where
  "renderButton gui element fr =
     (let txt = getTextContent element; style = getComputedStyle element (fst fr);
          tr1 = applyWidth gui style (snd fr);
          (r, tr2) = imgui_call gui (ImGui_Button txt) tr1;
          clicked = fst r
      in if clicked \<and> attr_or (attributes element) ''onClick'' [] \<noteq> []
         then handleEvent (attr_or (attributes element) ''onClick'' []) (fst fr, tr2)
         else Inr (fst fr, tr2))"

definition renderInputText :: "imgui \<Rightarrow> node \<Rightarrow> frame \<Rightarrow> thrown + frame" where
  "renderInputText gui element fr =
     (let context = fst fr;
          i = generateId element context;
          st = (case state context i of Some s \<Rightarrow> s
                | None \<Rightarrow> \<lparr>state_id = i, state_value = VString [], lastFrame = frameNumber context\<rparr>);
          label = attr_or (attributes element) ''label'' [];
          hint = attr_or (attributes element) ''hint'' [];
          style = getComputedStyle element context;
          tr1 = applyWidth gui style (snd fr);
          v = (if truthy (state_value st) then state_value st else VString []);
          (r, tr2) = imgui_call gui (ImGui_InputTextWithHint label hint v) tr1;
          changed = fst r
      in if changed
         then Inr (context\<lparr>state := (state context)(i \<mapsto>
                     st\<lparr>state_value := VString (snd r), lastFrame := frameNumber context\<rparr>)\<rparr>, tr2)
         else Inr (context, tr2))"

definition renderSliderFloat :: "imgui \<Rightarrow> node \<Rightarrow> frame \<Rightarrow> thrown + frame" where
  "renderSliderFloat gui element fr =
     (let context = fst fr;
          i = generateId element context;
          st = (case state context i of Some s \<Rightarrow> s
                | None \<Rightarrow> \<lparr>state_id = i, state_value = VNumber 0.5, lastFrame = frameNumber context\<rparr>);
          label = attr_or (attributes element) ''label'' [];
          mn = attr_or (attributes element) ''min'' ''0'';
          mx = attr_or (attributes element) ''max'' ''1'';
          style = getComputedStyle element context;
          tr1 = applyWidth gui style (snd fr);
          v = (if truthy (state_value st) then state_value st else VNumber 0.5);
          (r, tr2) = imgui_call gui (ImGui_SliderFloat label v mn mx) tr1;
          changed = fst r
      in if changed
         then Inr (context\<lparr>state := (state context)(i \<mapsto>
                     st\<lparr>state_value := v, lastFrame := frameNumber context\<rparr>)\<rparr>, tr2)
         else Inr (context, tr2))"

definition renderCheckbox :: "imgui \<Rightarrow> node \<Rightarrow> frame \<Rightarrow> thrown + frame" where
  "renderCheckbox gui element fr =
     (let context = fst fr;
          i = generateId element context;
          st = (case state context i of Some s \<Rightarrow> s
                | None \<Rightarrow> \<lparr>state_id = i, state_value = VBoolean False, lastFrame = frameNumber context\<rparr>);
          label = attr_or (attributes element) ''label'' [];
          checked = (if truthy (state_value st) then state_value st else VBoolean False);
          (r, tr1) = imgui_call gui (ImGui_Checkbox label checked) (snd fr);
          changed = fst r
      in if changed
         then Inr (context\<lparr>state := (state context)(i \<mapsto>
                     st\<lparr>state_value := checked, lastFrame := frameNumber context\<rparr>)\<rparr>, tr1)
         else Inr (context, tr1))"

definition renderSameLine :: "imgui \<Rightarrow> node \<Rightarrow> frame \<Rightarrow> thrown + frame" where
  "renderSameLine gui element fr =
     Inr (fst fr, snd (imgui_call gui (ImGui_SameLine (attr_or (attributes element) ''offset'' ''0'')
                                        (attr_or (attributes element) ''spacing'' ''-1'')) (snd fr)))"

definition renderSpacing :: "imgui \<Rightarrow> node \<Rightarrow> frame \<Rightarrow> thrown + frame" where
  "renderSpacing gui element fr = Inr (fst fr, snd (imgui_call gui ImGui_Spacing (snd fr)))"

definition renderSeparator :: "imgui \<Rightarrow> node \<Rightarrow> frame \<Rightarrow> thrown + frame" where
  "renderSeparator gui element fr = Inr (fst fr, snd (imgui_call gui ImGui_Separator (snd fr)))"

text \<open>
  The part of \<open>renderWindow\<close> before the children: the window size when a
  numeric width is styled, then \<open>ImGui.Begin(title)\<close>; it gives \<open>opened\<close>.
\<close>

definition windowBegin :: "imgui \<Rightarrow> node \<Rightarrow> frame \<Rightarrow> bool \<times> imgui_call list" where
  "windowBegin gui element fr =
     (let title = attr_or (attributes element) ''title'' ''Window'';
          style = getComputedStyle element (fst fr);
          tr1 = (case style ''width'' of
                   Some w \<Rightarrow>
                     (if style_type w = ''number''
                      then snd (imgui_call gui
                             (ImGui_SetNextWindowSize (style_value w)
                                (case style ''height'' of
                                   Some h \<Rightarrow> (if truthy (style_value h) then style_value h
                                              else VNumber 200)
                                 | None \<Rightarrow> VNumber 200)) (snd fr))
                      else snd fr)
                 | None \<Rightarrow> snd fr);
          (r, tr2) = imgui_call gui (ImGui_Begin title) tr1
      in (fst r, tr2))"

text \<open>The renderers that do not walk into children, by tag.\<close>

definition renderLeaf :: "imgui \<Rightarrow> node \<Rightarrow> frame \<Rightarrow> thrown + frame" where
  "renderLeaf gui element fr =
     (if tag element = ''Head'' then renderHead gui element fr
      else if tag element = ''Text'' then renderText gui element fr
      else if tag element = ''Button'' then renderButton gui element fr
      else if tag element = ''InputText'' then renderInputText gui element fr
      else if tag element = ''SliderFloat'' then renderSliderFloat gui element fr
      else if tag element = ''Checkbox'' then renderCheckbox gui element fr
      else if tag element = ''SameLine'' then renderSameLine gui element fr
      else if tag element = ''Spacing'' then renderSpacing gui element fr
      else if tag element = ''Separator'' then renderSeparator gui element fr
      else Inr fr)"

text \<open>
  \<open>render\<close> looks the tag up in the renderer table and warns when there is no
  entry.  \<open>renderApp\<close>, \<open>renderBody\<close> and \<open>renderWindow\<close> go through
  \<open>renderChildren\<close>, whose loop over the children is \<open>renderChildren_loop\<close>.
  A child that is a string has no \<open>tag\<close>, so \<open>render\<close> on it would find no
  renderer.
\<close>

function (sequential) render :: "imgui \<Rightarrow> node \<Rightarrow> frame \<Rightarrow> thrown + frame"
  and renderChildren :: "imgui \<Rightarrow> string \<Rightarrow> node list \<Rightarrow> frame \<Rightarrow> thrown + frame"
  and renderChildren_loop :: "imgui \<Rightarrow> node list \<Rightarrow> frame \<Rightarrow> thrown + frame" where
  "render gui (Element tg attrs cs) fr =
     (if tg = ''App'' \<or> tg = ''Body'' then renderChildren gui tg cs fr
      else if tg = ''Window'' then
        (let (opened, tr2) = windowBegin gui (Element tg attrs cs) fr
         in if opened then
              (case renderChildren gui tg cs (fst fr, tr2) of
                 Inl e \<Rightarrow> Inl e
               | Inr fr1 \<Rightarrow> Inr (fst fr1, snd (imgui_call gui ImGui_End (snd fr1))))
            else Inr (fst fr, snd (imgui_call gui ImGui_End tr2)))
      else renderLeaf gui (Element tg attrs cs) fr)"
| "render gui (TextNode s) fr = Inr fr"
| "renderChildren gui tg cs fr =
     (let oldPath = currentPath (fst fr);
          fr1 = ((fst fr)\<lparr>currentPath := currentPath (fst fr) @ [tg]\<rparr>, snd fr)
      in case renderChildren_loop gui cs fr1 of
           Inl e \<Rightarrow> Inl e
         | Inr fr2 \<Rightarrow> Inr ((fst fr2)\<lparr>currentPath := oldPath\<rparr>, snd fr2))"
| "renderChildren_loop gui [] fr = Inr fr"
| "renderChildren_loop gui (TextNode s # cs) fr =
     renderChildren_loop gui cs
       (if trim s \<noteq> [] then (fst fr, snd (imgui_call gui (ImGui_Text (trim s)) (snd fr))) else fr)"
| "renderChildren_loop gui (Element tg attrs cs' # cs) fr =
     (case render gui (Element tg attrs cs') fr of
        Inl e \<Rightarrow> Inl e
      | Inr fr1 \<Rightarrow> renderChildren_loop gui cs fr1)"
  by pat_completeness auto
termination
  by (relation "measure (\<lambda>x. case x of
                    Inl (gui, e, fr) \<Rightarrow> 2 * size e
                  | Inr (Inl (gui, tg, cs, fr)) \<Rightarrow> 2 * size_list size cs + 1
                  | Inr (Inr (gui, cs, fr)) \<Rightarrow> 2 * size_list size cs)") auto

declare render.simps [simp del] renderChildren.simps [simp del]

lemma handleEvent_context: "handleEvent n fr = Inr fr' \<Longrightarrow> fr' = fr"
  by (auto simp: handleEvent_def split: option.splits callback.splits)

lemma renderLeaf_currentPath:
  assumes "renderLeaf gui element fr = Inr fr'"
  shows "currentPath (fst fr') = currentPath (fst fr)"
proof -
  have h: "renderHead gui element fr = Inr fr' \<Longrightarrow> ?thesis"
    by (auto simp: renderHead_def)
  have t: "renderText gui element fr = Inr fr' \<Longrightarrow> ?thesis"
    by (auto simp: renderText_def Let_def split: option.splits if_splits)
  have b: "renderButton gui element fr = Inr fr' \<Longrightarrow> ?thesis"
    by (auto simp: renderButton_def Let_def split: prod.splits if_splits dest!: handleEvent_context)
  have i: "renderInputText gui element fr = Inr fr' \<Longrightarrow> ?thesis"
    by (auto simp: renderInputText_def Let_def split: prod.splits if_splits)
  have s: "renderSliderFloat gui element fr = Inr fr' \<Longrightarrow> ?thesis"
    by (auto simp: renderSliderFloat_def Let_def split: prod.splits if_splits)
  have c: "renderCheckbox gui element fr = Inr fr' \<Longrightarrow> ?thesis"
    by (auto simp: renderCheckbox_def Let_def split: prod.splits if_splits)
  have l: "renderSameLine gui element fr = Inr fr' \<Longrightarrow> ?thesis"
    by (auto simp: renderSameLine_def)
  have p: "renderSpacing gui element fr = Inr fr' \<Longrightarrow> ?thesis"
    by (auto simp: renderSpacing_def)
  have r: "renderSeparator gui element fr = Inr fr' \<Longrightarrow> ?thesis"
    by (auto simp: renderSeparator_def)
  from assms h t b i s c l p r show ?thesis
    unfolding renderLeaf_def by (auto split: if_splits)
qed

lemma render_currentPath_all:
  "render gui e fr = Inr fr' \<Longrightarrow> currentPath (fst fr') = currentPath (fst fr)"
  "renderChildren gui tg cs fr = Inr fr' \<Longrightarrow> currentPath (fst fr') = currentPath (fst fr)"
  "renderChildren_loop gui cs fr = Inr fr' \<Longrightarrow> currentPath (fst fr') = currentPath (fst fr)"
proof (induction gui e fr and gui tg cs fr and gui cs fr arbitrary: fr' and fr' and fr'
    rule: render_renderChildren_renderChildren_loop.induct)
  case (1 gui tg attrs cs fr)
  show ?case
  proof (cases "tg = ''App'' \<or> tg = ''Body''")
    case True
    with "1.prems" have "renderChildren gui tg cs fr = Inr fr'" by (simp add: render.simps)
    from "1.IH"(1)[OF True this] show ?thesis .
  next
    case nc: False
    show ?thesis
    proof (cases "tg = ''Window''")
      case True
      obtain opened tr2 where wb: "windowBegin gui (Element tg attrs cs) fr = (opened, tr2)"
        by (cases "windowBegin gui (Element tg attrs cs) fr")
      show ?thesis
      proof (cases opened)
        case True
        with "1.prems" nc \<open>tg = ''Window''\<close> wb obtain fr1 where
          rc: "renderChildren gui tg cs (fst fr, tr2) = Inr fr1" and
          f: "fr' = (fst fr1, snd (imgui_call gui ImGui_End (snd fr1)))"
          by (auto simp: render.simps split: sum.splits)
        from "1.IH"(2)[OF nc \<open>tg = ''Window''\<close> wb[symmetric] refl True rc] f show ?thesis by simp
      next
        case False
        with "1.prems" nc \<open>tg = ''Window''\<close> wb show ?thesis
          by (auto simp: render.simps)
      qed
    next
      case False
      with "1.prems" nc have "renderLeaf gui (Element tg attrs cs) fr = Inr fr'"
        by (simp add: render.simps)
      then show ?thesis by (rule renderLeaf_currentPath)
    qed
  qed
next
  case (2 gui s fr)
  then show ?case by (simp add: render.simps)
next
  case (3 gui tg cs fr)
  from "3.prems" obtain fr2 where
    l: "renderChildren_loop gui cs ((fst fr)\<lparr>currentPath := currentPath (fst fr) @ [tg]\<rparr>, snd fr) = Inr fr2"
    and f: "fr' = ((fst fr2)\<lparr>currentPath := currentPath (fst fr)\<rparr>, snd fr2)"
    by (auto simp: renderChildren.simps Let_def split: sum.splits)
  from f show ?case by simp
next
  case (4 gui fr)
  then show ?case by simp
next
  case (5 gui s cs fr)
  from "5.IH"[of fr'] "5.prems" show ?case by (auto split: if_splits)
next
  case (6 gui tg attrs cs' cs fr)
  from "6.prems" obtain fr1 where r: "render gui (Element tg attrs cs') fr = Inr fr1"
    and l: "renderChildren_loop gui cs fr1 = Inr fr'"
    by (auto split: sum.splits)
  from "6.IH"(1)[OF r] "6.IH"(2)[OF r l] show ?case by simp
qed

section \<open>The renderer (renderer.ts)\<close>

text \<open>
  Modelled from the spec: \<open>StateManager\<close> (state-manager.ts) and \<open>StyleEngine\<close>
  (style-engine.ts) are imported by renderer.ts and are not among the sources.
  The frame state store keeps the records and a frame counter; \<open>beginFrame\<close>
  increments the counter and clears nothing, \<open>endFrame\<close> evicts nothing, and the
  render context starts with an empty ancestor path, the current frame number
  and the store's records.  \<open>computeStyle\<close> is pure and never raises; \<open>renderElement\<close>
  drops its result.
\<close>

record StateManager =
  records :: "string \<rightharpoonup> WidgetState"
  frameCounter :: nat

definition beginFrame :: "StateManager \<Rightarrow> StateManager" where
  "beginFrame sm = sm\<lparr>frameCounter := frameCounter sm + 1\<rparr>"

definition endFrame :: "StateManager \<Rightarrow> StateManager" where
  "endFrame sm = sm"

definition createContext ::
  "StateManager \<Rightarrow> TSSStylesheet \<Rightarrow> (string \<rightharpoonup> EventHandler) \<Rightarrow> RenderContext" where
  "createContext sm sheet handlers =
     \<lparr>state = records sm, eventHandlers = handlers, stylesheet = sheet,
      frameNumber = frameCounter sm, currentPath = []\<rparr>"

record TXMLTSSRenderer =
  stateManager :: StateManager
  registered :: "string \<rightharpoonup> EventHandler"

definition registerEventHandler :: "string \<Rightarrow> callback \<Rightarrow> TXMLTSSRenderer \<Rightarrow> TXMLTSSRenderer" where
  "registerEventHandler n cb r =
     r\<lparr>registered := (registered r)(n \<mapsto> \<lparr>handler_name = n, handler_callback = cb\<rparr>)\<rparr>"

definition renderElement :: "imgui \<Rightarrow> node \<Rightarrow> frame \<Rightarrow> thrown + frame" where
  "renderElement gui element fr = render gui element fr"

text \<open>
  \<open>TXMLTSSRenderer.render\<close>.  The \<open>catch\<close> block logs the error and returns, so
  a call that comes back gives the renderer, the calls made and what was
  logged.  \<open>None\<close> is the call that does not come back.
\<close>

datatype render_error = MarkupError txml_error | StylesheetError tss_error | Thrown exn

record render_result =
  renderer :: TXMLTSSRenderer
  calls :: "imgui_call list"
  logged :: "render_error option"

definition TXMLTSSRenderer_render ::
  "imgui \<Rightarrow> TXMLTSSRenderer \<Rightarrow> string \<Rightarrow> string \<Rightarrow> render_result option" where
  "TXMLTSSRenderer_render gui r txml tss =
     (case parseTXML txml of
        Inl e \<Rightarrow> Some \<lparr>renderer = r, calls = [], logged = Some (MarkupError e)\<rparr>
      | Inr xmlElement \<Rightarrow>
          (case parseTSS tss of
             None \<Rightarrow> None
           | Some (Inl e) \<Rightarrow> Some \<lparr>renderer = r, calls = [], logged = Some (StylesheetError e)\<rparr>
           | Some (Inr sheet) \<Rightarrow>
               (let sm = beginFrame (stateManager r);
                    context = createContext sm sheet (registered r)
                in case renderElement gui xmlElement (context, []) of
                     Inl (e, fr) \<Rightarrow>
                       Some \<lparr>renderer = r\<lparr>stateManager := sm\<lparr>records := state (fst fr)\<rparr>\<rparr>,
                             calls = snd fr, logged = Some (Thrown e)\<rparr>
                   | Inr fr \<Rightarrow>
                       Some \<lparr>renderer = r\<lparr>stateManager := endFrame (sm\<lparr>records := state (fst fr)\<rparr>)\<rparr>,
                             calls = snd fr, logged = None\<rparr>)))"



section \<open>Evaluation on concrete texts\<close>

lemmas xml_eval = parse_def parseTXML_def parseElement.simps parseChildren.simps parseAttributes_def
  parseAttributes_loop.simps parseAttributeValue_def parseAttributeName_def parseTagName_def
  parseText_def skipComment_def skipWhitespace_def scan_tracked_def scan_plain_def consume_def
  trim_def is_space_def is_ident_def assign_def Let_def

lemmas tss_eval = parseTSS_def tss_parse_def parse_loop.simps parseRule_def parseSelector_def
  parseProperties_def parseProperties_loop.simps parseIdentifier_def parseValue_def
  parseRootVariables_def parseRootVariables_loop.simps parseVariable_def skipRootProperty_def
  consume_ignored_def parseAtRule_def calculateSpecificity_def split_ws.simps
  skipWhitespace_def scan_tracked_def scan_plain_def consume_def
  trim_def is_space_def is_ident_def is_alpha_def assign_def Let_def

lemmas render_eval = render.simps renderChildren.simps renderLeaf_def windowBegin_def
  renderHead_def renderText_def renderButton_def renderInputText_def renderSliderFloat_def
  renderCheckbox_def renderSameLine_def renderSpacing_def renderSeparator_def
  handleEvent_def applyWidth_def getComputedStyle_def getTextContent_def generateId_def
  attr_or_def imgui_call_def trim_def is_space_def Let_def

section \<open>Specificity\<close>

lemma parseTSS_three_rules:
  "parseTSS ''Window { color: white; } .my-class { color: red; } #my-id { color: blue; }'' =
     Some (Inr \<lparr>variables = [],
                rules = [\<lparr>selector = ''Window'', properties = [(''color'', ''white'')],
                          specificity = 1\<rparr>,
                         \<lparr>selector = ''.my-class'', properties = [(''color'', ''red'')],
                          specificity = 10\<rparr>,
                         \<lparr>selector = ''#my-id'', properties = [(''color'', ''blue'')],
                          specificity = 100\<rparr>]\<rparr>)"
  by (simp add: tss_eval)

text \<open>
  The count of the claim.  \<open>simple_selectors_in\<close> reads the simple selectors
  that occur in a selector text: white space ends a simple selector, and \<open>#\<close>
  and \<open>.\<close> begin a new one, so \<open>Button.primary#ok\<close> has three.
  \<open>claimed_specificity\<close> gives 100 to each simple selector that begins with
  \<open>#\<close>, 10 to each that begins with \<open>.\<close> and 1 to each that begins with a
  character of a tag name, as the markup parser reads tag names (\<open>is_ident\<close>).
\<close>

fun simple_selectors_in :: "string \<Rightarrow> string \<Rightarrow> string list" where
  "simple_selectors_in cur [] = (if cur = [] then [] else [cur])"
| "simple_selectors_in cur (c # cs) =
     (if is_space c then (if cur = [] then [] else [cur]) @ simple_selectors_in [] cs
      else if c = CHR ''#'' \<or> c = CHR ''.''
      then (if cur = [] then [] else [cur]) @ simple_selectors_in [c] cs
      else simple_selectors_in (cur @ [c]) cs)"

definition claimed_specificity :: "string \<Rightarrow> nat" where
  "claimed_specificity sel =
     (let ss = simple_selectors_in [] sel
      in 100 * length (filter (prefix ''#'') ss)
         + 10 * length (filter (prefix ''.'') ss)
         + 1 * length (filter (\<lambda>s. s \<noteq> [] \<and> is_ident (hd s)) ss))"

text \<open>
  \<open>one_simple_selector p\<close>: the piece \<open>p\<close> is one simple selector, with no \<open>#\<close>
  and no \<open>.\<close> after its first character, and if it begins with a character of
  a tag name, that character is a letter.
\<close>

definition one_simple_selector :: "string \<Rightarrow> bool" where
  "one_simple_selector p \<longleftrightarrow>
     CHR ''#'' \<notin> set (tl p) \<and> CHR ''.'' \<notin> set (tl p)
     \<and> (p = [] \<or> is_alpha (hd p) \<or> \<not> is_ident (hd p))"

lemma scan_word:
  "\<forall>c \<in> set w. \<not> is_space c \<and> c \<noteq> CHR ''#'' \<and> c \<noteq> CHR ''.'' \<Longrightarrow>
     simple_selectors_in cur (w @ r) = simple_selectors_in (cur @ w) r"
  by (induction w arbitrary: cur) auto

lemma scan_part:
  assumes "\<forall>c \<in> set p. \<not> is_space c" "CHR ''#'' \<notin> set (tl p)" "CHR ''.'' \<notin> set (tl p)"
  shows "simple_selectors_in [] (p @ r) = simple_selectors_in p r"
proof (cases p)
  case Nil
  then show ?thesis by simp
next
  case (Cons c p')
  with assms have w: "\<forall>c \<in> set p'. \<not> is_space c \<and> c \<noteq> CHR ''#'' \<and> c \<noteq> CHR ''.''"
    and c: "\<not> is_space c" by auto
  from scan_word[OF w, of "[c]" r] Cons c show ?thesis by simp
qed

lemma scan_spaces: "simple_selectors_in [] (dropWhile is_space r) = simple_selectors_in [] r"
  by (induction r) auto

lemma scan_split_ws:
  "\<forall>p \<in> set (split_ws s). CHR ''#'' \<notin> set (tl p) \<and> CHR ''.'' \<notin> set (tl p) \<Longrightarrow>
     simple_selectors_in [] s = filter (\<lambda>p. p \<noteq> []) (split_ws s)"
proof (induction s rule: split_ws.induct)
  case (1 s)
  define p where "p = takeWhile (\<lambda>c. \<not> is_space c) s"
  define r where "r = dropWhile (\<lambda>c. \<not> is_space c) s"
  have s: "s = p @ r" by (simp add: p_def r_def)
  have sp: "split_ws s = (if r = [] then [p] else p # split_ws (dropWhile is_space r))"
    by (subst split_ws.simps) (simp add: Let_def p_def r_def)
  have pn: "\<forall>c \<in> set p. \<not> is_space c" unfolding p_def by (auto dest: set_takeWhileD)
  have pp: "CHR ''#'' \<notin> set (tl p)" "CHR ''.'' \<notin> set (tl p)"
    using "1.prems" sp by (auto split: if_splits)
  have a: "simple_selectors_in [] s = simple_selectors_in p r"
    unfolding s by (rule scan_part[OF pn pp])
  show ?case
  proof (cases "r = []")
    case True
    with a sp show ?thesis by simp
  next
    case False
    then obtain c r' where r: "r = c # r'" by (cases r) auto
    have "is_space c" using r unfolding r_def by (simp add: dropWhile_eq_Cons_conv)
    then have b: "simple_selectors_in p r = (if p = [] then [] else [p]) @ simple_selectors_in [] r'"
      and d: "dropWhile is_space r = dropWhile is_space r'" using r by simp_all
    have "\<forall>p \<in> set (split_ws (dropWhile is_space r)). CHR ''#'' \<notin> set (tl p) \<and> CHR ''.'' \<notin> set (tl p)"
      using "1.prems" sp False by simp
    from "1.IH"[OF r_def False this]
    have "simple_selectors_in [] (dropWhile is_space r) = filter (\<lambda>p. p \<noteq> []) (split_ws (dropWhile is_space r))" .
    then have "simple_selectors_in [] r' = filter (\<lambda>p. p \<noteq> []) (split_ws (dropWhile is_space r))"
      unfolding d scan_spaces .
    with a b sp False show ?thesis by simp
  qed
qed

lemma alpha_ident: "is_alpha c \<Longrightarrow> is_ident c"
  by (auto simp: is_alpha_def is_ident_def Let_def)

lemma claimed_specificity_parts:
  assumes "\<forall>p \<in> set (selector_parts sel). one_simple_selector p"
  shows "claimed_specificity sel = parts_specificity sel"
proof -
  from assms have all: "\<forall>p \<in> set (split_ws sel). one_simple_selector p"
    by (simp add: selector_parts_def)
  then have "\<forall>p \<in> set (split_ws sel). CHR ''#'' \<notin> set (tl p) \<and> CHR ''.'' \<notin> set (tl p)"
    by (simp add: one_simple_selector_def)
  from scan_split_ws[OF this]
  have ss: "simple_selectors_in [] sel = filter (\<lambda>p. p \<noteq> []) (split_ws sel)" .
  have h: "filter (prefix ''#'') (filter (\<lambda>p. p \<noteq> []) ps) = filter (prefix ''#'') ps" for ps
    by (induction ps) auto
  have d: "filter (prefix ''.'') (filter (\<lambda>p. p \<noteq> []) ps) = filter (prefix ''.'') ps" for ps
    by (induction ps) auto
  have t: "filter (\<lambda>s. s \<noteq> [] \<and> is_ident (hd s)) (filter (\<lambda>p. p \<noteq> []) ps)
      = filter (\<lambda>p. p \<noteq> [] \<and> is_alpha (hd p)) ps"
    if "\<forall>p \<in> set ps. one_simple_selector p" for ps
    using that by (induction ps) (auto simp: one_simple_selector_def alpha_ident)
  show ?thesis
    unfolding claimed_specificity_def Let_def ss h d t[OF all] parts_specificity_def
      selector_parts_def begins_with_hash_def[abs_def] begins_with_dot_def[abs_def]
      begins_with_letter_def[abs_def]
    by simp
qed

text \<open>
  Claim C3, as the code has it.  The specificity of a rule is computed when the
  rule is parsed, from its selector text: 100 for every piece between white
  space that begins with \<open>#\<close>, 10 for every piece that begins with \<open>.\<close> and 1 for
  every piece that begins with a letter.  A piece counts once, by its first
  character.  This is the count of the claim, 100 for every \<open>#id\<close>, 10 for every
  \<open>.class\<close> and 1 for every tag name over the simple selectors in the text,
  when every piece is one simple selector and no tag name begins with a digit,
  \<open>_\<close> or \<open>-\<close>.  The three rules \<open>Window\<close>, \<open>.my-class\<close>, \<open>#my-id\<close> get 1, 10, 100.
\<close>

theorem specificity_counts_pieces:
  "calculateSpecificity sel =
     100 * length (filter begins_with_hash (selector_parts sel))
     + 10 * length (filter begins_with_dot (selector_parts sel))
     + 1 * length (filter begins_with_letter (selector_parts sel))
   \<and> ((\<forall>p \<in> set (selector_parts sel). one_simple_selector p) \<longrightarrow>
        calculateSpecificity sel = claimed_specificity sel)
   \<and> (parseTSS tss = Some (Inr sheet) \<longrightarrow>
        (\<forall>r \<in> set (rules sheet). specificity r = calculateSpecificity (selector r)))
   \<and> (\<exists>sh. parseTSS ''Window { color: white; } .my-class { color: red; } #my-id { color: blue; }''
               = Some (Inr sh)
             \<and> map selector (rules sh) = [''Window'', ''.my-class'', ''#my-id'']
             \<and> map specificity (rules sh) = [1, 10, 100])"
proof (intro conjI impI)
  show "calculateSpecificity sel =
     100 * length (filter begins_with_hash (selector_parts sel))
     + 10 * length (filter begins_with_dot (selector_parts sel))
     + 1 * length (filter begins_with_letter (selector_parts sel))"
    unfolding parts_specificity_def[symmetric] by (rule calculateSpecificity_parts)
  show "calculateSpecificity sel = claimed_specificity sel"
    if "\<forall>p \<in> set (selector_parts sel). one_simple_selector p"
    using claimed_specificity_parts[OF that] calculateSpecificity_parts[of sel] by simp
  show "\<forall>r \<in> set (rules sheet). specificity r = calculateSpecificity (selector r)"
    if "parseTSS tss = Some (Inr sheet)"
    using parseTSS_specificity[OF that] by (simp add: calculateSpecificity_parts)
  show "\<exists>sh. parseTSS ''Window { color: white; } .my-class { color: red; } #my-id { color: blue; }''
               = Some (Inr sh)
             \<and> map selector (rules sh) = [''Window'', ''.my-class'', ''#my-id'']
             \<and> map specificity (rules sh) = [1, 10, 100]"
    by (simp add: parseTSS_three_rules)
qed

lemma parseTSS_descendant_rule:
  "parseTSS ''Window  #main .big { color: red; }'' =
     Some (Inr \<lparr>variables = [],
                rules = [\<lparr>selector = ''Window  #main .big'', properties = [(''color'', ''red'')],
                          specificity = 111\<rparr>]\<rparr>)"
  by (simp add: tss_eval)

lemma selector_parts_descendant:
  "selector_parts ''Window  #main .big'' = [''Window'', ''#main'', ''.big'']"
  by (simp add: selector_parts_def split_ws.simps is_space_def)

theorem specificity_counts_pieces_witness:
  "parseTSS ''Window  #main .big { color: red; }'' =
     Some (Inr \<lparr>variables = [],
                rules = [\<lparr>selector = ''Window  #main .big'', properties = [(''color'', ''red'')],
                          specificity = 111\<rparr>]\<rparr>)
   \<and> calculateSpecificity ''Window  #main .big'' = 111
   \<and> claimed_specificity ''Window  #main .big'' = 111"
proof -
  note t = specificity_counts_pieces[of "''Window  #main .big''"
      "''Window  #main .big { color: red; }''"
      "\<lparr>variables = [],
        rules = [\<lparr>selector = ''Window  #main .big'', properties = [(''color'', ''red'')],
                  specificity = 111\<rparr>]\<rparr>"]
  have h: "\<forall>p \<in> set (selector_parts ''Window  #main .big''). one_simple_selector p"
    unfolding selector_parts_descendant
    by (simp add: one_simple_selector_def is_alpha_def is_ident_def)
  from t h have e: "calculateSpecificity ''Window  #main .big'' = claimed_specificity ''Window  #main .big''"
    by blast
  from t parseTSS_descendant_rule
  have "\<forall>r \<in> set (rules \<lparr>variables = [],
        rules = [\<lparr>selector = ''Window  #main .big'', properties = [(''color'', ''red'')],
                  specificity = 111\<rparr>]\<rparr>). specificity r = calculateSpecificity (selector r)"
    by blast
  then have c: "calculateSpecificity ''Window  #main .big'' = 111" by simp
  with e parseTSS_descendant_rule show ?thesis by simp
qed

text \<open>
  Three selectors for which the computed value is not the count of the claim.
  \<open>Button.primary#ok\<close> has a tag name, a class and an id and gets 1, not 111;
  \<open>.a.b\<close> has two classes and gets 10, not 20; \<open>_Foo\<close> is a tag name, which the
  markup parser reads, and gets 0, not 1.
\<close>

theorem compound_selector_counts_once:
  "calculateSpecificity ''Button.primary#ok'' = 1
   \<and> claimed_specificity ''Button.primary#ok'' = 111
   \<and> calculateSpecificity ''.a.b'' = 10
   \<and> claimed_specificity ''.a.b'' = 20
   \<and> calculateSpecificity ''_Foo'' = 0
   \<and> claimed_specificity ''_Foo'' = 1
   \<and> parseTXML ''<App><_Foo/></App>'' = Inr (Element ''App'' [] [Element ''_Foo'' [] []])
   \<and> parseTSS ''Button.primary#ok { color: red; }'' =
       Some (Inr \<lparr>variables = [],
                  rules = [\<lparr>selector = ''Button.primary#ok'',
                            properties = [(''color'', ''red'')], specificity = 1\<rparr>]\<rparr>)"
proof -
  have a: "calculateSpecificity ''Button.primary#ok'' = 1"
    "calculateSpecificity ''.a.b'' = 10" "calculateSpecificity ''_Foo'' = 0"
    by (simp_all add: calculateSpecificity_def split_ws.simps is_space_def is_alpha_def)
  have b: "claimed_specificity ''Button.primary#ok'' = 111"
    "claimed_specificity ''.a.b'' = 20" "claimed_specificity ''_Foo'' = 1"
    by (simp_all add: claimed_specificity_def is_space_def is_ident_def)
  have c: "parseTXML ''<App><_Foo/></App>'' = Inr (Element ''App'' [] [Element ''_Foo'' [] []])"
    by (simp add: xml_eval)
  have d: "parseTSS ''Button.primary#ok { color: red; }'' =
       Some (Inr \<lparr>variables = [],
                  rules = [\<lparr>selector = ''Button.primary#ok'',
                            properties = [(''color'', ''red'')], specificity = 1\<rparr>]\<rparr>)"
    by (simp add: tss_eval)
  from a b c d show ?thesis by blast
qed

section \<open>The ancestor path and the widget identity\<close>

text \<open>
  Claim C9.  When \<open>WidgetRenderers.render(element, context)\<close> returns,
  \<open>context.currentPath\<close> has the value it had before the call: \<open>renderChildren\<close>
  pushes the tag for the time of the children and puts the old path back.
\<close>

theorem render_restores_currentPath:
  "render gui element fr = Inr fr' \<Longrightarrow> currentPath (fst fr') = currentPath (fst fr)"
  by (rule render_currentPath_all(1))

definition click_all :: imgui where
  "click_all tr = (True, [])"

definition save_context :: RenderContext where
  "save_context =
     \<lparr>state = Map.empty,
      eventHandlers = [''save'' \<mapsto> \<lparr>handler_name = ''save'', handler_callback = Returns\<rparr>],
      stylesheet = \<lparr>variables = [], rules = []\<rparr>, frameNumber = 1,
      currentPath = [''App'']\<rparr>"

lemma render_body_example:
  "render click_all
     (Element ''Body'' []
        [Element ''Window'' [(''title'', ''Settings'')]
           [Element ''Text'' [] [TextNode ''Hello''],
            Element ''Button'' [(''onClick'', ''save'')] [TextNode ''Save'']]])
     (save_context, [])
   = Inr (save_context,
          [ImGui_Begin ''Settings'', ImGui_Text ''Hello'', ImGui_Button ''Save'', ImGui_End])"
  by (simp add: render_eval click_all_def save_context_def)

theorem render_restores_currentPath_witness:
  "render click_all
     (Element ''Body'' []
        [Element ''Window'' [(''title'', ''Settings'')]
           [Element ''Text'' [] [TextNode ''Hello''],
            Element ''Button'' [(''onClick'', ''save'')] [TextNode ''Save'']]])
     (save_context, [])
   = Inr (save_context,
          [ImGui_Begin ''Settings'', ImGui_Text ''Hello'', ImGui_Button ''Save'', ImGui_End])
   \<and> currentPath save_context = [''App'']"
proof
  show "render click_all
     (Element ''Body'' []
        [Element ''Window'' [(''title'', ''Settings'')]
           [Element ''Text'' [] [TextNode ''Hello''],
            Element ''Button'' [(''onClick'', ''save'')] [TextNode ''Save'']]])
     (save_context, [])
   = Inr (save_context,
          [ImGui_Begin ''Settings'', ImGui_Text ''Hello'', ImGui_Button ''Save'', ImGui_End])"
    by (rule render_body_example)
  from render_restores_currentPath[OF this]
  show "currentPath save_context = [''App'']"
    by (simp add: save_context_def)
qed

text \<open>
  Claim C1, as the code has it.  The identity of an element is the ancestor
  path joined with \<open>/\<close>, followed by the element's tag, and nothing else: an
  element with the same ancestor tags and the same tag gets the same identity
  in every frame, whatever the frame number, the stored state and its
  attributes are; two siblings with the same tag get the same identity.
\<close>

theorem generateId_is_tag_path:
  "generateId element context = join ''/'' (currentPath context @ [tag element])
   \<and> (currentPath context1 = currentPath context2 \<and> tag element1 = tag element2 \<longrightarrow>
        generateId element1 context1 = generateId element2 context2)"
  by (simp add: generateId_def)

definition window_context :: "nat \<Rightarrow> RenderContext" where
  "window_context n =
     \<lparr>state = Map.empty, eventHandlers = Map.empty,
      stylesheet = \<lparr>variables = [], rules = []\<rparr>, frameNumber = n,
      currentPath = [''App'', ''Body'', ''Window'']\<rparr>"

theorem generateId_is_tag_path_witness:
  "generateId (Element ''InputText'' [(''label'', ''Name'')] []) (window_context 7)
     = generateId (Element ''InputText'' [(''label'', ''Name'')] []) (window_context 8)
   \<and> generateId (Element ''InputText'' [(''label'', ''Name'')] []) (window_context 7)
     = ''App/Body/Window/InputText''"
proof -
  define e where "e = Element ''InputText'' [(''label'', ''Name'')] []"
  note t = generateId_is_tag_path[of e "window_context 7" "window_context 7" "window_context 8" e e]
  have p: "currentPath (window_context 7) = currentPath (window_context 8) \<and> tag e = tag e"
    by (simp add: window_context_def)
  from t p have a: "generateId e (window_context 7) = generateId e (window_context 8)"
    by blast
  from t have "generateId e (window_context 7)
      = join ''/'' (currentPath (window_context 7) @ [tag e])"
    by blast
  then have b: "generateId e (window_context 7) = ''App/Body/Window/InputText''"
    by (simp add: window_context_def e_def)
  from a b show ?thesis unfolding e_def by blast
qed

text \<open>
  Two \<open>Button\<close> elements under the same \<open>Window\<close> get one identity, and so do
  two \<open>InputText\<close> elements: what the binding leaves in the first is shown by
  the second.
\<close>

definition type_into_first :: imgui where
  "type_into_first tr =
     (if last tr = ImGui_InputTextWithHint ''First'' [] (VString []) then (True, ''typed'')
      else (last tr = ImGui_Begin ''Window'', []))"

theorem same_tag_siblings_collide:
  "generateId (Element ''Button'' [(''onClick'', ''save'')] [TextNode ''Save'']) (window_context 1)
     = generateId (Element ''Button'' [(''onClick'', ''cancel'')] [TextNode ''Cancel''])
         (window_context 1)
   \<and> map_sum id snd
       (render type_into_first
          (Element ''Window'' []
             [Element ''InputText'' [(''label'', ''First'')] [],
              Element ''InputText'' [(''label'', ''Second'')] []])
          ((window_context 1)\<lparr>currentPath := [''App'', ''Body'']\<rparr>, []))
     = Inr [ImGui_Begin ''Window'',
            ImGui_InputTextWithHint ''First'' [] (VString []),
            ImGui_InputTextWithHint ''Second'' [] (VString ''typed''),
            ImGui_End]"
  by (simp add: render_eval type_into_first_def window_context_def)

section \<open>The render entry point\<close>

lemma parseTXML_App: "parseTXML ''<App/>'' = Inr (Element ''App'' [] [])"
  by (simp add: xml_eval)

lemma parseTSS_brace: "parseTSS ''{'' = None"
  by (simp add: parseTSS_def tss_parse_def skipWhitespace_def scan_tracked_def Let_def is_space_def
      parse_loop_brace_diverges)

lemma render_returns:
  "parseTSS tss \<noteq> None \<Longrightarrow> \<exists>res. TXMLTSSRenderer_render gui r txml tss = Some res"
  by (auto simp: TXMLTSSRenderer_render_def Let_def split: sum.splits option.splits prod.splits)

text \<open>
  Claim C8 says that \<open>render\<close> comes back for every pair of texts.  On the
  markup \<open><App/>\<close> and the stylesheet \<open>{\<close> it does not: \<open>parseRule\<close> gives \<open>null\<close>
  for the empty selector without reading the brace, and the loop of \<open>parse\<close>
  runs on the same position for ever.
\<close>

theorem render_never_returns:
  "TXMLTSSRenderer_render gui r ''<App/>'' ''{'' = None"
  by (simp add: TXMLTSSRenderer_render_def parseTXML_App parseTSS_brace)


section \<open>Errors of the markup parser\<close>

lemma parseElement_starts:
  "parseElement st = Inr x \<Longrightarrow> rest st \<noteq> [] \<and> hd (rest st) = CHR ''<''"
  by (auto simp: parseElement.simps[of st] consume_def prefix_def split: option.splits if_splits)

text \<open>
  Claim C5.  When the root element is well formed (\<open>parseElement\<close> reads it from
  the trimmed text) and its tag is not \<open>App\<close>, or text that is not white space is
  left after it, \<open>parse\<close> fails with a \<open>TXMLParseError\<close>; and a text that is
  parsed has the root tag \<open>App\<close>.
\<close>

theorem root_must_be_App:
  "(parseElement (skipWhitespace \<lparr>rest = trim xml, line = 1, column = 1\<rparr>) = Inr (el, st) \<longrightarrow>
      (tag el \<noteq> ''App'' \<longrightarrow>
         parse xml = Inl (TXMLParseError ''Root element must be <App>'' (line st) (column st)))
      \<and> (tag el = ''App'' \<and> rest (skipWhitespace st) \<noteq> [] \<longrightarrow>
         parse xml = Inl (TXMLParseError ''Unexpected content after root element''
                            (line (skipWhitespace st)) (column (skipWhitespace st)))))
   \<and> (parse xml = Inr e \<longrightarrow> tag e = ''App'')"
proof (intro conjI impI)
  assume pe: "parseElement (skipWhitespace \<lparr>rest = trim xml, line = 1, column = 1\<rparr>) = Inr (el, st)"
  note s = parseElement_starts[OF pe]
  show "parse xml = Inl (TXMLParseError ''Root element must be <App>'' (line st) (column st))"
    if "tag el \<noteq> ''App''"
    using that pe s by (simp add: parse_def Let_def)
  show "parse xml = Inl (TXMLParseError ''Unexpected content after root element''
                            (line (skipWhitespace st)) (column (skipWhitespace st)))"
    if "tag el = ''App'' \<and> rest (skipWhitespace st) \<noteq> []"
    using that pe s by (simp add: parse_def Let_def)
next
  assume "parse xml = Inr e"
  then show "tag e = ''App''"
    by (auto simp: parse_def Let_def split: if_splits sum.splits)
qed

lemma parse_Window_root:
  "parseElement (skipWhitespace \<lparr>rest = trim '' <Window title=\"w\"></Window> '', line = 1, column = 1\<rparr>)
     = Inr (Element ''Window'' [(''title'', ''w'')] [], \<lparr>rest = [], line = 1, column = 28\<rparr>)"
  by (simp add: xml_eval)

lemma parse_trailing:
  "parseElement (skipWhitespace \<lparr>rest = trim ''<App/> <App/>'', line = 1, column = 1\<rparr>)
     = Inr (Element ''App'' [] [], \<lparr>rest = '' <App/>'', line = 1, column = 7\<rparr>)"
  by (simp add: xml_eval)

theorem root_must_be_App_witness:
  "parse '' <Window title=\"w\"></Window> '' = Inl (TXMLParseError ''Root element must be <App>'' 1 28)
   \<and> parse ''<App/> <App/>'' = Inl (TXMLParseError ''Unexpected content after root element'' 1 8)"
proof
  show "parse '' <Window title=\"w\"></Window> '' = Inl (TXMLParseError ''Root element must be <App>'' 1 28)"
    using root_must_be_App[of "'' <Window title=\"w\"></Window> ''" "Element ''Window'' [(''title'', ''w'')] []"
        "\<lparr>rest = [], line = 1, column = 28\<rparr>"] parse_Window_root
    by simp
  show "parse ''<App/> <App/>'' = Inl (TXMLParseError ''Unexpected content after root element'' 1 8)"
    using root_must_be_App[of "''<App/> <App/>''" "Element ''App'' [] []"
        "\<lparr>rest = '' <App/>'', line = 1, column = 7\<rparr>"] parse_trailing
    by (simp add: skipWhitespace_def scan_tracked_def is_space_def)
qed

section \<open>Mismatched closing tags\<close>

text \<open>
  \<open>child_start st x\<close>: the loop of \<open>parseChildren\<close>, entered at \<open>st\<close>, calls
  \<open>parseElement\<close> at \<open>x\<close>, at once or after the comments, elements and texts
  before it.  \<open>nested st y\<close>: \<open>parseElement\<close> at \<open>st\<close> calls \<open>parseElement\<close> at \<open>y\<close>,
  at any depth.
\<close>

inductive child_start :: "cursor \<Rightarrow> cursor \<Rightarrow> bool" where
  here: "rest st \<noteq> [] \<Longrightarrow> st1 = skipWhitespace st \<Longrightarrow> \<not> prefix ''</'' (rest st1) \<Longrightarrow>
         rest st1 \<noteq> [] \<and> hd (rest st1) = CHR ''<'' \<Longrightarrow> \<not> prefix ''<!--'' (rest st1) \<Longrightarrow>
         child_start st st1"
| after_comment: "rest st \<noteq> [] \<Longrightarrow> st1 = skipWhitespace st \<Longrightarrow> \<not> prefix ''</'' (rest st1) \<Longrightarrow>
         rest st1 \<noteq> [] \<and> hd (rest st1) = CHR ''<'' \<Longrightarrow> prefix ''<!--'' (rest st1) \<Longrightarrow>
         child_start (skipComment st1) x \<Longrightarrow> child_start st x"
| after_element: "rest st \<noteq> [] \<Longrightarrow> st1 = skipWhitespace st \<Longrightarrow> \<not> prefix ''</'' (rest st1) \<Longrightarrow>
         rest st1 \<noteq> [] \<and> hd (rest st1) = CHR ''<'' \<Longrightarrow> \<not> prefix ''<!--'' (rest st1) \<Longrightarrow>
         parseElement st1 = Inr (el, st2) \<Longrightarrow> child_start st2 x \<Longrightarrow> child_start st x"
| after_text: "rest st \<noteq> [] \<Longrightarrow> st1 = skipWhitespace st \<Longrightarrow> \<not> prefix ''</'' (rest st1) \<Longrightarrow>
         \<not> (rest st1 \<noteq> [] \<and> hd (rest st1) = CHR ''<'') \<Longrightarrow> parseText st1 = (t, st2) \<Longrightarrow>
         child_start st2 x \<Longrightarrow> child_start st x"

inductive nested :: "cursor \<Rightarrow> cursor \<Rightarrow> bool" where
  self: "nested st st"
| child: "consume ''<'' st = Some st1 \<Longrightarrow> parseTagName st1 = (tg, st2) \<Longrightarrow>
          parseAttributes st2 = Inr (attrs, st3) \<Longrightarrow> consume ''/>'' st3 = None \<Longrightarrow>
          consume ''>'' st3 = Some st4 \<Longrightarrow> child_start st4 x \<Longrightarrow> nested x y \<Longrightarrow>
          nested st y"

lemma child_start_error:
  "child_start st x \<Longrightarrow> parseElement x = Inl e \<Longrightarrow> parseChildren st acc = Inl e"
proof (induction arbitrary: acc rule: child_start.induct)
  case (here st st1)
  then show ?case by (simp add: parseChildren.simps[of st] Let_def)
next
  case (after_comment st st1 x)
  then show ?case by (simp add: parseChildren.simps[of st] Let_def)
next
  case (after_element st st1 el st2 x)
  then show ?case by (simp add: parseChildren.simps[of st] Let_def)
next
  case (after_text st st1 t st2 x)
  from after_text.hyps after_text.IH[OF after_text.prems]
  show ?case by (auto simp: parseChildren.simps[of st] Let_def)
qed

lemma nested_error:
  "nested st y \<Longrightarrow> parseElement y = Inl e \<Longrightarrow> parseElement st = Inl e"
proof (induction rule: nested.induct)
  case (self st)
  then show ?case .
next
  case (child st st1 tg st2 attrs st3 st4 x y)
  from child.IH[OF child.prems] have "parseElement x = Inl e" .
  from child_start_error[OF child.hyps(6) this]
  have "parseChildren st4 [] = Inl e" .
  with child.hyps show ?case by (simp add: parseElement.simps[of st])
qed

lemma nested_starts:
  "nested st y \<Longrightarrow> consume ''<'' y \<noteq> None \<Longrightarrow> rest st \<noteq> [] \<and> hd (rest st) = CHR ''<''"
  by (induction rule: nested.induct) (auto simp: consume_def prefix_def split: if_splits)

text \<open>
  \<open>mismatched st Y X st'\<close>: at \<open>st\<close> there is an element with the opening tag
  \<open>Y\<close>, its attributes and its children are read, and the closing tag that
  follows is \<open></X\<close> with another name, read up to \<open>st'\<close>.
\<close>

definition mismatched :: "cursor \<Rightarrow> string \<Rightarrow> string \<Rightarrow> cursor \<Rightarrow> bool" where
  "mismatched st Y X st' \<longleftrightarrow>
     (\<exists>st1 st2 attrs st3 st4 cs st5 st6.
        consume ''<'' st = Some st1 \<and> parseTagName st1 = (Y, st2) \<and>
        parseAttributes st2 = Inr (attrs, st3) \<and> consume ''/>'' st3 = None \<and>
        consume ''>'' st3 = Some st4 \<and> parseChildren st4 [] = Inr (cs, st5) \<and>
        consume ''</'' st5 = Some st6 \<and> parseTagName st6 = (X, st') \<and> X \<noteq> Y)"

lemma mismatched_error:
  "mismatched st Y X st' \<Longrightarrow>
     parseElement st = Inl (TXMLParseError
        (''Mismatched closing tag: expected </'' @ Y @ ''> but found </'' @ X @ ''>'')
        (line st') (column st'))"
  by (auto simp: mismatched_def parseElement.simps[of st])

text \<open>
  Claim C6.  When the parser, anywhere in the markup, reads an element opened
  as \<open>Y\<close> whose closing tag is \<open></X>\<close> with \<open>X \<noteq> Y\<close>, \<open>parse\<close> fails with a
  \<open>TXMLParseError\<close> whose message names both: expected \<open></Y>\<close> but found \<open></X>\<close>.
\<close>

theorem mismatched_closing_tag:
  "nested (skipWhitespace \<lparr>rest = trim xml, line = 1, column = 1\<rparr>) st \<and> mismatched st Y X st'
   \<longrightarrow> parse xml = Inl (TXMLParseError
          (''Mismatched closing tag: expected </'' @ Y @ ''> but found </'' @ X @ ''>'')
          (line st') (column st'))"
proof
  assume a: "nested (skipWhitespace \<lparr>rest = trim xml, line = 1, column = 1\<rparr>) st \<and> mismatched st Y X st'"
  then have e: "parseElement st = Inl (TXMLParseError
        (''Mismatched closing tag: expected </'' @ Y @ ''> but found </'' @ X @ ''>'')
        (line st') (column st'))"
    using mismatched_error by blast
  from a have "consume ''<'' st \<noteq> None" by (auto simp: mismatched_def)
  with a have s: "rest (skipWhitespace \<lparr>rest = trim xml, line = 1, column = 1\<rparr>) \<noteq> [] \<and>
      hd (rest (skipWhitespace \<lparr>rest = trim xml, line = 1, column = 1\<rparr>)) = CHR ''<''"
    using nested_starts by blast
  from a e have "parseElement (skipWhitespace \<lparr>rest = trim xml, line = 1, column = 1\<rparr>)
      = Inl (TXMLParseError
        (''Mismatched closing tag: expected </'' @ Y @ ''> but found </'' @ X @ ''>'')
        (line st') (column st'))"
    using nested_error by blast
  with s show "parse xml = Inl (TXMLParseError
          (''Mismatched closing tag: expected </'' @ Y @ ''> but found </'' @ X @ ''>'')
          (line st') (column st'))"
    by (simp add: parse_def Let_def)
qed

definition at_Text :: cursor where
  "at_Text = \<lparr>rest = ''<Text>hi</Button></App>'', line = 1, column = 14\<rparr>"

lemma nested_example:
  "nested (skipWhitespace \<lparr>rest = trim ''<App><Head/> <Text>hi</Button></App>'', line = 1, column = 1\<rparr>)
     at_Text"
proof -
  have s0: "skipWhitespace \<lparr>rest = trim ''<App><Head/> <Text>hi</Button></App>'', line = 1, column = 1\<rparr>
      = \<lparr>rest = ''<App><Head/> <Text>hi</Button></App>'', line = 1, column = 1\<rparr>"
    by (simp add: xml_eval)
  have h: "parseElement \<lparr>rest = ''<Head/> <Text>hi</Button></App>'', line = 1, column = 6\<rparr>
      = Inr (Element ''Head'' [] [], \<lparr>rest = '' <Text>hi</Button></App>'', line = 1, column = 13\<rparr>)"
    by (simp add: xml_eval)
  have c2: "child_start \<lparr>rest = '' <Text>hi</Button></App>'', line = 1, column = 13\<rparr> at_Text"
    by (rule child_start.here) (simp_all add: at_Text_def xml_eval)
  have c1: "child_start \<lparr>rest = ''<Head/> <Text>hi</Button></App>'', line = 1, column = 6\<rparr> at_Text"
    by (rule child_start.after_element[OF _ _ _ _ _ _ c2,
          where ?st1.0 = "\<lparr>rest = ''<Head/> <Text>hi</Button></App>'', line = 1, column = 6\<rparr>"
            and el = "Element ''Head'' [] []"])
       (simp_all add: h, simp_all add: xml_eval)
  show ?thesis
    unfolding s0
    by (rule nested.child[OF _ _ _ _ _ c1 nested.self,
          where ?st1.0 = "\<lparr>rest = ''App><Head/> <Text>hi</Button></App>'', line = 1, column = 2\<rparr>"
            and tg = "''App''"
            and ?st2.0 = "\<lparr>rest = ''><Head/> <Text>hi</Button></App>'', line = 1, column = 5\<rparr>"
            and attrs = "[]"
            and ?st3.0 = "\<lparr>rest = ''><Head/> <Text>hi</Button></App>'', line = 1, column = 5\<rparr>"])
       (simp_all add: xml_eval)
qed

lemma mismatched_example:
  "mismatched at_Text ''Text'' ''Button'' \<lparr>rest = ''></App>'', line = 1, column = 30\<rparr>"
  unfolding mismatched_def at_Text_def
  apply (rule exI[where x = "\<lparr>rest = ''Text>hi</Button></App>'', line = 1, column = 15\<rparr>"])
  apply (rule exI[where x = "\<lparr>rest = ''>hi</Button></App>'', line = 1, column = 19\<rparr>"])
  apply (rule exI[where x = "[]"])
  apply (rule exI[where x = "\<lparr>rest = ''>hi</Button></App>'', line = 1, column = 19\<rparr>"])
  apply (rule exI[where x = "\<lparr>rest = ''hi</Button></App>'', line = 1, column = 20\<rparr>"])
  apply (rule exI[where x = "[TextNode ''hi'']"])
  apply (rule exI[where x = "\<lparr>rest = ''</Button></App>'', line = 1, column = 22\<rparr>"])
  apply (rule exI[where x = "\<lparr>rest = ''Button></App>'', line = 1, column = 24\<rparr>"])
  apply (simp add: xml_eval)
  done

theorem mismatched_closing_tag_witness:
  "parse ''<App><Head/> <Text>hi</Button></App>''
     = Inl (TXMLParseError ''Mismatched closing tag: expected </Text> but found </Button>'' 1 30)"
  using mismatched_closing_tag[of "''<App><Head/> <Text>hi</Button></App>''" at_Text
      "''Text''" "''Button''" "\<lparr>rest = ''></App>'', line = 1, column = 30\<rparr>"]
    nested_example mismatched_example
  by simp


section \<open>Reading a text of a known shape\<close>

lemma dropWhile_stop: "r = [] \<or> \<not> P (hd r) \<Longrightarrow> dropWhile P r = r"
  by (cases r) auto

lemma takeWhile_stop: "r = [] \<or> \<not> P (hd r) \<Longrightarrow> takeWhile P r = []"
  by (cases r) auto

lemma dropWhile_run:
  "\<forall>c \<in> set w. P c \<Longrightarrow> r = [] \<or> \<not> P (hd r) \<Longrightarrow> dropWhile P (w @ r) = r"
  by (simp add: dropWhile_append2 dropWhile_stop)

lemma takeWhile_run:
  "\<forall>c \<in> set w. P c \<Longrightarrow> r = [] \<or> \<not> P (hd r) \<Longrightarrow> takeWhile P (w @ r) = w"
  by (simp add: takeWhile_append2 takeWhile_stop)

lemma skipWhitespace_at:
  "rest st = w @ r \<Longrightarrow> \<forall>c \<in> set w. is_space c \<Longrightarrow> r = [] \<or> \<not> is_space (hd r) \<Longrightarrow>
     rest (skipWhitespace st) = r"
  using dropWhile_run[of w is_space r] by simp

lemma scan_plain_at:
  "rest st = w @ r \<Longrightarrow> \<forall>c \<in> set w. P c \<Longrightarrow> r = [] \<or> \<not> P (hd r) \<Longrightarrow>
     \<exists>st'. scan_plain P st = (w, st') \<and> rest st' = r"
  using takeWhile_run[of w P r] dropWhile_run[of w P r] by (simp add: scan_plain_def Let_def)

lemma scan_tracked_at:
  "rest st = w @ r \<Longrightarrow> \<forall>c \<in> set w. P c \<Longrightarrow> r = [] \<or> \<not> P (hd r) \<Longrightarrow>
     \<exists>st'. scan_tracked P st = (w, st') \<and> rest st' = r"
  using takeWhile_run[of w P r] dropWhile_run[of w P r] by (simp add: scan_tracked_def Let_def)

lemma consume_at: "rest st = e @ r \<Longrightarrow> \<exists>st'. consume e st = Some st' \<and> rest st' = r"
  by (simp add: consume_def)

lemma consume_not: "\<not> prefix e (rest st) \<Longrightarrow> consume e st = None"
  by (simp add: consume_def)

lemma trim_no_space_ends:
  "s \<noteq> [] \<Longrightarrow> \<not> is_space (hd s) \<Longrightarrow> \<not> is_space (last s) \<Longrightarrow> trim s = s"
proof -
  assume a: "s \<noteq> []" "\<not> is_space (hd s)" "\<not> is_space (last s)"
  then have "dropWhile is_space s = s" by (simp add: dropWhile_stop)
  moreover have "dropWhile is_space (rev s) = rev s"
    using a by (intro dropWhile_stop) (simp add: hd_rev)
  ultimately show ?thesis by (simp add: trim_def)
qed





section \<open>Declarations without their semicolon\<close>























section \<open>Text children\<close>

text \<open>
  \<open>kept_text s\<close>: a text as the children loop keeps it.  It is not empty, it
  begins with a character that is no white space, and it has no \<open><\<close>.
  \<open>texts_kept\<close> says so of every text child in a tree.
\<close>

definition kept_text :: "string \<Rightarrow> bool" where
  "kept_text s \<longleftrightarrow> s \<noteq> [] \<and> \<not> is_space (hd s) \<and> CHR ''<'' \<notin> set s"

fun texts_kept :: "node \<Rightarrow> bool" where
  "texts_kept (TextNode s) = kept_text s"
| "texts_kept (Element tg attrs cs) = list_all texts_kept cs"

lemma parseText_kept:
  assumes pt: "parseText (skipWhitespace st) = (tx, st2)" and t: "trim tx \<noteq> []"
  shows "kept_text tx"
proof -
  have tx: "tx = takeWhile (\<lambda>c. c \<noteq> CHR ''<'') (dropWhile is_space (rest st))"
    using pt scan_tracked_eq[of "\<lambda>c. c \<noteq> CHR ''<''" "skipWhitespace st" tx st2]
    by (simp add: parseText_def)
  from t have ne: "tx \<noteq> []" by (auto simp: trim_def)
  then obtain x xs where d: "dropWhile is_space (rest st) = x # xs"
    using tx by (cases "dropWhile is_space (rest st)") auto
  then have "\<not> is_space x" by (simp add: dropWhile_eq_Cons_conv)
  moreover have "hd tx = x" using tx d ne by (auto split: if_splits)
  moreover have "CHR ''<'' \<notin> set tx" unfolding tx by (auto dest: set_takeWhileD)
  ultimately show ?thesis using ne by (simp add: kept_text_def)
qed

lemma parseElement_cases:
  assumes r: "parseElement st = Inr (el, st')"
  obtains (selfclose) st1 tg st2 attrs st3 where
      "consume ''<'' st = Some st1" "parseTagName st1 = (tg, st2)"
      "parseAttributes st2 = Inr (attrs, st3)" "consume ''/>'' st3 = Some st'"
      "el = Element tg attrs []"
  | (paired) st1 tg st2 attrs st3 st4 cs st5 st6 st7 where
      "consume ''<'' st = Some st1" "parseTagName st1 = (tg, st2)"
      "parseAttributes st2 = Inr (attrs, st3)" "consume ''/>'' st3 = None"
      "consume ''>'' st3 = Some st4" "parseChildren st4 [] = Inr (cs, st5)"
      "consume ''</'' st5 = Some st6" "parseTagName st6 = (tg, st7)"
      "consume ''>'' st7 = Some st'" "el = Element tg attrs cs"
proof -
  from spec[OF parseElement_parseChildren_total] r show thesis
  proof (cases rule: parseElement_dom_cases)
    case (selfclose st1 tg st2 attrs st3)
    from that(1)[OF this] show ?thesis .
  next
    case (paired st1 tg st2 attrs st3 st4 cs st5 st6 st7)
    from that(2)[OF this] show ?thesis .
  qed
qed

text \<open>
  What the children loop does at \<open>st\<close>: it stops, skips a comment, reads an
  element, or reads a text.
\<close>

lemma parseChildren_cases:
  assumes r: "parseChildren st cs = Inr (cs', st')"
  obtains (stop_end) "rest st = []" "cs' = cs" "st' = st"
  | (stop_close) "rest st \<noteq> []" "prefix ''</'' (rest (skipWhitespace st))"
      "cs' = cs" "st' = skipWhitespace st"
  | (comment) "rest st \<noteq> []" "\<not> prefix ''</'' (rest (skipWhitespace st))"
      "prefix ''<!--'' (rest (skipWhitespace st))"
      "parseChildren (skipComment (skipWhitespace st)) cs = Inr (cs', st')"
  | (element) el st2 where "rest st \<noteq> []" "\<not> prefix ''</'' (rest (skipWhitespace st))"
      "rest (skipWhitespace st) \<noteq> [] \<and> hd (rest (skipWhitespace st)) = CHR ''<''"
      "\<not> prefix ''<!--'' (rest (skipWhitespace st))"
      "parseElement (skipWhitespace st) = Inr (el, st2)"
      "parseChildren st2 (cs @ [el]) = Inr (cs', st')"
  | (chars) tx st2 where "rest st \<noteq> []" "\<not> prefix ''</'' (rest (skipWhitespace st))"
      "\<not> (rest (skipWhitespace st) \<noteq> [] \<and> hd (rest (skipWhitespace st)) = CHR ''<'')"
      "parseText (skipWhitespace st) = (tx, st2)"
      "parseChildren st2 (if trim tx \<noteq> [] then cs @ [TextNode tx] else cs) = Inr (cs', st')"
proof (cases "rest st = []")
  case True
  have "parseChildren st cs = Inr (cs, st)"
    by (subst parseChildren.simps) (simp add: True)
  with r have "cs' = cs" "st' = st" by simp_all
  with True stop_end show ?thesis by blast
next
  case ne: False
  define st1 where "st1 = skipWhitespace st"
  note eq = parseChildren.simps[of st cs, unfolded Let_def, folded st1_def]
  show ?thesis
  proof (cases "prefix ''</'' (rest st1)")
    case True
    with r ne eq stop_close show ?thesis by (simp add: st1_def)
  next
    case nc: False
    show ?thesis
    proof (cases "rest st1 \<noteq> [] \<and> hd (rest st1) = CHR ''<''")
      case lt: True
      show ?thesis
      proof (cases "prefix ''<!--'' (rest st1)")
        case True
        with r ne nc lt eq have "parseChildren (skipComment st1) cs = Inr (cs', st')" by simp
        with ne nc True comment show ?thesis by (simp add: st1_def)
      next
        case False
        with r ne nc lt eq obtain el st2 where "parseElement st1 = Inr (el, st2)"
          "parseChildren st2 (cs @ [el]) = Inr (cs', st')"
          by (auto split: sum.splits)
        with ne nc lt False element show ?thesis by (simp add: st1_def)
      qed
    next
      case False
      obtain tx st2 where pt: "parseText st1 = (tx, st2)" by (cases "parseText st1")
      with r ne nc False eq
      have "parseChildren st2 (if trim tx \<noteq> [] then cs @ [TextNode tx] else cs) = Inr (cs', st')"
        by simp
      with ne nc False pt chars show ?thesis by (simp add: st1_def)
    qed
  qed
qed

lemma parse_texts_kept:
  "\<forall>el st'. parseElement st = Inr (el, st') \<longrightarrow> texts_kept el"
  "\<forall>cs' st'. parseChildren st cs = Inr (cs', st') \<longrightarrow> list_all texts_kept cs \<longrightarrow>
      list_all texts_kept cs'"
proof (induction st and st cs rule: parseElement_parseChildren.induct)
  case (1 st)
  show ?case
  proof (intro allI impI)
    fix el st' assume r: "parseElement st = Inr (el, st')"
    then show "texts_kept el"
    proof (cases rule: parseElement_cases)
      case (selfclose st1 tg st2 attrs st3)
      then show ?thesis by simp
    next
      case (paired st1 tg st2 attrs st3 st4 cs st5 st6 st7)
      from "1.IH"[OF paired(1) paired(2)[symmetric] refl paired(3) refl paired(4) paired(5)] paired(6)
      have "list_all texts_kept cs" by simp
      with paired(10) show ?thesis by simp
    qed
  qed
next
  case (2 st cs)
  show ?case
  proof (intro allI impI)
    fix cs' st' assume r: "parseChildren st cs = Inr (cs', st')" and k: "list_all texts_kept cs"
    from r show "list_all texts_kept cs'"
    proof (cases rule: parseChildren_cases)
      case stop_end
      with k show ?thesis by simp
    next
      case stop_close
      with k show ?thesis by simp
    next
      case comment
      have lt: "rest (skipWhitespace st) \<noteq> [] \<and> hd (rest (skipWhitespace st)) = CHR ''<''"
        using comment(3) by (auto simp: prefix_def simp del: rest_skipWhitespace)
      from "2.IH"(1)[OF comment(1) refl comment(2) lt comment(3)] comment(4) k show ?thesis
        by blast
    next
      case (element el st2)
      have "texts_kept el"
        using "2.IH"(2)[OF element(1) refl element(2) element(3) element(4)] element(5) by blast
      with k have "list_all texts_kept (cs @ [el])" by simp
      with "2.IH"(3)[OF element(1) refl element(2) element(3) element(4) element(5) refl] element(6)
      show ?thesis by blast
    next
      case (chars tx st2)
      have "list_all texts_kept (if trim tx \<noteq> [] then cs @ [TextNode tx] else cs)"
        using k parseText_kept[OF chars(4)] by simp
      with "2.IH"(4)[OF chars(1) refl chars(2) chars(3) chars(4)[symmetric] refl] chars(5)
      show ?thesis by blast
    qed
  qed
qed

lemma skipWhitespace_idle:
  "rest st = [] \<or> \<not> is_space (hd (rest st)) \<Longrightarrow> skipWhitespace st = st"
  by (cases "rest st") (auto simp: skipWhitespace_def scan_tracked_def Let_def)

lemma skipWhitespace_twice: "skipWhitespace (skipWhitespace st) = skipWhitespace st"
proof (rule skipWhitespace_idle)
  show "rest (skipWhitespace st) = [] \<or> \<not> is_space (hd (rest (skipWhitespace st)))"
    using hd_dropWhile[of is_space "rest st"] by auto
qed

lemma parseChildren_after_space:
  assumes "rest st \<noteq> []" "rest (skipWhitespace st) \<noteq> []"
  shows "parseChildren st cs = parseChildren (skipWhitespace st) cs"
  using assms
  by (simp add: parseChildren.simps[of st cs] parseChildren.simps[of "skipWhitespace st" cs]
      skipWhitespace_twice Let_def del: rest_skipWhitespace)

lemma space_run_no_child:
  assumes r: "rest st = w @ CHR ''<'' # r" and w: "list_all is_space w"
  shows "parseChildren st cs = parseChildren (skipWhitespace st) cs
         \<and> rest (skipWhitespace st) = CHR ''<'' # r"
proof -
  have ns: "\<not> is_space (CHR ''<'')" by (simp add: is_space_def)
  have r1: "rest (skipWhitespace st) = CHR ''<'' # r"
    using skipWhitespace_at[of st w "CHR ''<'' # r"] r w ns by (simp add: list_all_iff)
  moreover have "rest st \<noteq> []" using r by simp
  ultimately show ?thesis using parseChildren_after_space[of st cs] by simp
qed

lemma trim_kept: "kept_text t \<Longrightarrow> trim t \<noteq> []"
proof -
  assume k: "kept_text t"
  then obtain x xs where t: "t = x # xs" and x: "\<not> is_space x"
    by (cases t) (auto simp: kept_text_def)
  have "dropWhile is_space t = t" using t x by simp
  moreover have "dropWhile is_space (rev t) \<noteq> []"
    using t x by (auto simp: dropWhile_eq_Nil_conv)
  ultimately show ?thesis by (simp add: trim_def)
qed

lemma text_run_child:
  assumes r: "rest st = w @ t @ CHR ''<'' # r" and w: "list_all is_space w" and k: "kept_text t"
  shows "\<exists>st'. rest st' = CHR ''<'' # r
           \<and> parseChildren st cs = parseChildren st' (cs @ [TextNode t])"
proof -
  from k obtain x xs where t: "t = x # xs" and x: "\<not> is_space x" and lt: "CHR ''<'' \<notin> set t"
    by (cases t) (auto simp: kept_text_def)
  define st1 where "st1 = skipWhitespace st"
  have r1: "rest st1 = t @ CHR ''<'' # r"
    unfolding st1_def using skipWhitespace_at[of st w "t @ CHR ''<'' # r"] r w t x
    by (simp add: list_all_iff)
  have ne: "rest st \<noteq> []" using r t by simp
  have nc: "\<not> prefix ''</'' (rest st1)" using r1 t lt by auto
  have nl: "\<not> (rest st1 \<noteq> [] \<and> hd (rest st1) = CHR ''<'')" using r1 t lt by auto
  have "\<forall>c \<in> set t. c \<noteq> CHR ''<''" using lt by auto
  from scan_tracked_at[OF r1 this] obtain st2 where
    pt: "parseText st1 = (t, st2)" and r2: "rest st2 = CHR ''<'' # r"
    by (auto simp: parseText_def)
  have "parseChildren st cs = parseChildren st2 (cs @ [TextNode t])"
    using ne nc nl pt trim_kept[OF k]
    by (subst parseChildren.simps) (auto simp add: Let_def st1_def[symmetric])
  with r2 show ?thesis by blast
qed

lemma parseChildren_extends_all:
  "(st0::cursor) = st0"
  "\<forall>cs' st'. parseChildren st cs = Inr (cs', st') \<longrightarrow> prefix cs cs'"
proof (induction st0 and st cs rule: parseElement_parseChildren.induct)
  case (1 st)
  show ?case by simp
next
  case (2 st cs)
  show ?case
  proof (intro allI impI)
    fix cs' st' assume r: "parseChildren st cs = Inr (cs', st')"
    then show "prefix cs cs'"
    proof (cases rule: parseChildren_cases)
      case stop_end
      then show ?thesis by simp
    next
      case stop_close
      then show ?thesis by simp
    next
      case comment
      have lt: "rest (skipWhitespace st) \<noteq> [] \<and> hd (rest (skipWhitespace st)) = CHR ''<''"
        using comment(3) by (auto simp: prefix_def simp del: rest_skipWhitespace)
      from "2.IH"(1)[OF comment(1) refl comment(2) lt comment(3)] comment(4) show ?thesis
        by blast
    next
      case (element el st2)
      from "2.IH"(3)[OF element(1) refl element(2) element(3) element(4) element(5) refl] element(6)
      have "prefix (cs @ [el]) cs'" by blast
      then show ?thesis by (rule append_prefixD)
    next
      case (chars tx st2)
      from "2.IH"(4)[OF chars(1) refl chars(2) chars(3) chars(4)[symmetric] refl] chars(5)
      have "prefix (if trim tx \<noteq> [] then cs @ [TextNode tx] else cs) cs'" by blast
      then show ?thesis by (auto dest: append_prefixD split: if_splits)
    qed
  qed
qed

lemma parseChildren_extends:
  "parseChildren st cs = Inr (cs', st') \<Longrightarrow> prefix cs cs'"
  using parseChildren_extends_all(2)[of st cs] by blast

lemma parse_texts_kept_root:
  assumes "parse xml = Inr e"
  shows "texts_kept e"
proof -
  define st where "st = skipWhitespace \<lparr>rest = trim xml, line = 1, column = 1\<rparr>"
  from assms obtain st1 where "parseElement st = Inr (e, st1)"
    unfolding parse_def Let_def st_def[symmetric]
    by (auto split: if_splits sum.splits prod.splits)
  with parse_texts_kept(1)[of st] show ?thesis by blast
qed

text \<open>
  Claim C7, as the code has it.  In every parsed markup text, a run of white
  space before an element or a closing tag gives no child; a text with content
  is kept from its first character that is no white space up to the next \<open><\<close>,
  white space at its end included, so every text child is not empty, begins
  with no white space and has no \<open><\<close>; and each child is added after the
  children read before it.
\<close>

theorem text_children_as_read:
  "(parse xml = Inr e \<longrightarrow> texts_kept e)
   \<and> (rest st = w @ CHR ''<'' # r \<and> list_all is_space w \<longrightarrow>
        parseChildren st cs = parseChildren (skipWhitespace st) cs
        \<and> rest (skipWhitespace st) = CHR ''<'' # r)
   \<and> (rest st = w @ t @ CHR ''<'' # r \<and> list_all is_space w \<and> kept_text t \<longrightarrow>
        (\<exists>st'. rest st' = CHR ''<'' # r
              \<and> parseChildren st cs = parseChildren st' (cs @ [TextNode t])))
   \<and> (parseChildren st cs = Inr (cs', st1) \<longrightarrow> prefix cs cs')"
  using parse_texts_kept_root[of xml e] space_run_no_child[of st w r cs]
    text_run_child[of st w t r cs] parseChildren_extends[of st cs cs' st1]
  by blast

lemma parse_mixed_children:
  "parse ''<App> <B/>  hi there  <C/> </App>'' =
     Inr (Element ''App'' [] [Element ''B'' [] [], TextNode ''hi there  '', Element ''C'' [] []])"
  by (simp add: xml_eval)

theorem text_children_as_read_witness:
  "parse ''<App> <B/>  hi there  <C/> </App>'' =
     Inr (Element ''App'' [] [Element ''B'' [] [], TextNode ''hi there  '', Element ''C'' [] []])
   \<and> kept_text ''hi there  ''
   \<and> (\<exists>st'. rest st' = ''<C/>''
         \<and> parseChildren \<lparr>rest = ''  hi <C/>'', line = 1, column = 1\<rparr> [] =
             parseChildren st' [TextNode ''hi ''])"
proof -
  note t = text_children_as_read[of "''<App> <B/>  hi there  <C/> </App>''"
      "Element ''App'' [] [Element ''B'' [] [], TextNode ''hi there  '', Element ''C'' [] []]"
      "\<lparr>rest = ''  hi <C/>'', line = 1, column = 1\<rparr>" "''  ''" "''C/>''" "[]" "''hi ''"]
  from t parse_mixed_children
  have "texts_kept (Element ''App'' [] [Element ''B'' [] [], TextNode ''hi there  '', Element ''C'' [] []])"
    by blast
  then have a: "kept_text ''hi there  ''" by simp
  have h: "rest \<lparr>rest = ''  hi <C/>'', line = 1, column = 1\<rparr> = ''  '' @ ''hi '' @ CHR ''<'' # ''C/>''
      \<and> list_all is_space ''  '' \<and> kept_text ''hi ''"
    by (simp add: is_space_def kept_text_def)
  from t h have b: "\<exists>st'. rest st' = ''<C/>''
         \<and> parseChildren \<lparr>rest = ''  hi <C/>'', line = 1, column = 1\<rparr> [] =
             parseChildren st' [TextNode ''hi '']"
    by simp
  from parse_mixed_children a b show ?thesis by simp
qed

text \<open>
  The text \<open>hi\<close> with a blank after it is kept with the blank; trimmed it would
  be \<open>hi\<close>.
\<close>

theorem text_child_keeps_trailing_space:
  "parse ''<App>hi <B/></App>'' = Inr (Element ''App'' [] [TextNode ''hi '', Element ''B'' [] []])
   \<and> trim ''hi '' = ''hi''"
  by (simp add: xml_eval)

section \<open>The JSX tree builder (jsx-runtime.ts)\<close>

text \<open>
  The arguments of \<open>jsx(type, props, key)\<close>.  A child slot holds \<open>undefined\<close>,
  \<open>null\<close> or a node (an element or a string); \<open>props.children\<close> and \<open>key\<close> are one
  slot or an array of slots (\<open>Array.isArray\<close>), and a missing \<open>props.children\<close> or
  \<open>key\<close> is \<open>Single Undefined\<close>.  \<open>props\<close> is \<open>None\<close> for \<open>null\<close>; otherwise it has
  \<open>children\<close> and its other entries, in the order of \<open>Object.entries\<close>, with
  strings as values, for which \<open>String(value)\<close> is the value.
\<close>

datatype jsx_child = Undefined | Null | Child node

datatype jsx_children = Single jsx_child | Array "jsx_child list"

record props =
  children_prop :: jsx_children
  others :: "(string \<times> string) list"

text \<open>
  \<open>push_children\<close> is what the two branches add to \<open>children\<close>: of an array the
  slots that are neither \<open>null\<close> nor \<open>undefined\<close>, of one slot the node if it is
  neither.
\<close>

fun pushed :: "jsx_child \<Rightarrow> node list" where
  "pushed Undefined = []"
| "pushed Null = []"
| "pushed (Child n) = [n]"

definition push_children :: "jsx_children \<Rightarrow> node list" where
  "push_children c = (case c of Array xs \<Rightarrow> concat (map pushed xs) | Single x \<Rightarrow> pushed x)"

definition jsx :: "string \<Rightarrow> props option \<Rightarrow> jsx_children \<Rightarrow> node" where
  "jsx type p key =
     (let from_key = (if key \<noteq> Single Undefined then push_children key else []);
          children =
            (case p of
               Some q \<Rightarrow> if children_prop q \<noteq> Single Undefined
                         then push_children (children_prop q) else from_key
             | None \<Rightarrow> from_key);
          attributes =
            (case p of
               None \<Rightarrow> []
             | Some q \<Rightarrow>
                 fold (\<lambda>(k, v) attrs.
                         if k = ''children'' then attrs
                         else if k = ''key'' then attrs
                         else assign k v attrs)
                   (others q) [])
      in Element type attributes children)"

definition jsxs :: "string \<Rightarrow> props option \<Rightarrow> jsx_children \<Rightarrow> node" where
  "jsxs type p key = jsx type p key"

text \<open>
  \<open>replace_all c r\<close> is \<open>.replace(/c/g, r)\<close>; \<open>escape\<close> is the chain of the five
  replacements, \<open>&\<close> first.
\<close>

definition replace_all :: "char \<Rightarrow> string \<Rightarrow> string \<Rightarrow> string" where
  "replace_all c r s = concat (map (\<lambda>x. if x = c then r else [x]) s)"

definition escape :: "string \<Rightarrow> string" where
  "escape v =
     replace_all (CHR ''>'') ''&gt;''
       (replace_all (CHR ''<'') ''&lt;''
          (replace_all (CHR 0x27) ''&#39;''
             (replace_all (CHR ''\"'') ''&quot;''
                (replace_all (CHR ''&'') ''&amp;'' v))))"

text \<open>
  \<open>jsxToTXML\<close>: a string is returned as it is; an element with no children is
  written self-closing, with a blank before \<open>/>\<close>.
\<close>

fun jsxToTXML :: "node \<Rightarrow> string" where
  "jsxToTXML (TextNode s) = s"
| "jsxToTXML (Element tg attrs cs) =
     (let attrsStr = join '' '' (map (\<lambda>(k, v). k @ ''=\"'' @ escape v @ ''\"'') attrs);
          childrenStr = join [] (map jsxToTXML cs)
      in if cs = []
         then ''<'' @ tg @ (if attrsStr \<noteq> [] then '' '' @ attrsStr else []) @ '' />''
         else ''<'' @ tg @ (if attrsStr \<noteq> [] then '' '' @ attrsStr else []) @ ''>''
              @ childrenStr @ ''</'' @ tg @ ''>'')"


lemmas jsx_eval = jsx_def jsxs_def push_children_def escape_def replace_all_def

section \<open>Serializing a tree and parsing it again\<close>

text \<open>
  A character that \<open>jsxToTXML\<close> escapes in an attribute value.
\<close>

definition special :: "char \<Rightarrow> bool" where
  "special c \<longleftrightarrow> c \<in> set [CHR ''&'', CHR ''\"'', CHR 0x27, CHR ''<'', CHR ''>'']"

text \<open>
  \<open>attr_plain\<close>: the name is made of the characters the parser reads as a name,
  is not \<^verbatim>\<open>__proto__\<close>, and the value has no character that is escaped.
\<close>

definition attr_plain :: "string \<times> string \<Rightarrow> bool" where
  "attr_plain a \<longleftrightarrow>
     list_all is_ident (fst a) \<and> fst a \<noteq> ''__proto__'' \<and> \<not> list_ex special (snd a)"

text \<open>\<open>texts_apart\<close>: no two text children next to each other.\<close>

fun texts_apart :: "node list \<Rightarrow> bool" where
  "texts_apart (TextNode a # TextNode b # cs) = False"
| "texts_apart (c # cs) = texts_apart cs"
| "texts_apart [] = True"

text \<open>
  \<open>plain\<close>: at every element of the tree the tag is made of name characters,
  every attribute is \<open>attr_plain\<close>, the attribute names are distinct (as the
  keys of an object are), no two text children are next to each other, and
  every text child is \<open>kept_text\<close>.
\<close>

fun plain :: "node \<Rightarrow> bool" where
  "plain (TextNode s) = kept_text s"
| "plain (Element tg attrs cs) =
     (list_all is_ident tg \<and> list_all attr_plain attrs \<and> distinct (map fst attrs)
      \<and> texts_apart cs \<and> list_all plain cs)"

fun attrs_text :: "(string \<times> string) list \<Rightarrow> string" where
  "attrs_text [] = []"
| "attrs_text ((k, v) # xs) = '' '' @ k @ ''=\"'' @ v @ ''\"'' @ attrs_text xs"

lemma replace_all_absent: "c \<notin> set s \<Longrightarrow> replace_all c r s = s"
  by (induction s) (auto simp: replace_all_def)

lemma escape_plain:
  assumes "\<not> list_ex special v"
  shows "escape v = v"
proof -
  from assms have "CHR ''&'' \<notin> set v" "CHR ''\"'' \<notin> set v" "CHR 0x27 \<notin> set v"
    "CHR ''<'' \<notin> set v" "CHR ''>'' \<notin> set v"
    by (auto simp: special_def list_ex_iff)
  then show ?thesis by (simp add: escape_def replace_all_absent)
qed

lemma join_empty: "join [] xs = concat xs"
  by (induction xs rule: induct_list012) auto

lemma join_attrs:
  "xs \<noteq> [] \<Longrightarrow>
     '' '' @ join '' '' (map (\<lambda>(k, v). k @ ''=\"'' @ v @ ''\"'') xs) = attrs_text xs"
  by (induction xs rule: induct_list012) auto

lemma join_attrs_empty:
  "join '' '' (map (\<lambda>(k, v). k @ ''=\"'' @ v @ ''\"'') xs) = [] \<longleftrightarrow> xs = []"
  by (induction xs rule: induct_list012) auto

lemma map_escape_plain:
  "list_all attr_plain xs \<Longrightarrow>
     map (\<lambda>(k, v). k @ ''=\"'' @ escape v @ ''\"'') xs = map (\<lambda>(k, v). k @ ''=\"'' @ v @ ''\"'') xs"
  by (induction xs) (auto simp: attr_plain_def escape_plain)

lemma jsxToTXML_plain:
  assumes "list_all attr_plain xs"
  shows "jsxToTXML (Element tg xs cs) =
     (if cs = [] then ''<'' @ tg @ attrs_text xs @ '' />''
      else ''<'' @ tg @ attrs_text xs @ ''>'' @ concat (map jsxToTXML cs) @ ''</'' @ tg @ ''>'')"
proof -
  define a where "a = join '' '' (map (\<lambda>(k, v). k @ ''=\"'' @ v @ ''\"'') xs)"
  have e: "jsxToTXML (Element tg xs cs) =
     (if cs = [] then ''<'' @ tg @ (if a \<noteq> [] then '' '' @ a else []) @ '' />''
      else ''<'' @ tg @ (if a \<noteq> [] then '' '' @ a else []) @ ''>''
           @ concat (map jsxToTXML cs) @ ''</'' @ tg @ ''>'')"
    unfolding jsxToTXML.simps Let_def map_escape_plain[OF assms] a_def join_empty ..
  have "(if a \<noteq> [] then '' '' @ a else []) = attrs_text xs"
  proof (cases "xs = []")
    case True
    then show ?thesis by (simp add: a_def)
  next
    case False
    with join_attrs_empty[of xs] have "a \<noteq> []" by (simp add: a_def)
    with join_attrs[OF False] show ?thesis by (simp add: a_def)
  qed
  with e show ?thesis by (simp only:)
qed

declare jsxToTXML.simps(2) [simp del]

lemma ident_not_space: "is_ident c \<Longrightarrow> \<not> is_space c"
  by (auto simp: is_ident_def is_space_def Let_def)

lemma ident_not_delim:
  "is_ident c \<Longrightarrow> c \<noteq> CHR ''>'' \<and> c \<noteq> CHR ''/'' \<and> c \<noteq> CHR ''='' \<and> c \<noteq> CHR ''!'' \<and> c \<noteq> CHR ''<''"
  by (auto simp: is_ident_def Let_def)

lemma space_not_ident: "is_space c \<Longrightarrow> \<not> is_ident c"
  using ident_not_space by blast

lemma update_new: "k \<notin> fst ` set acc \<Longrightarrow> AList.update k v acc = acc @ [(k, v)]"
  by (induction acc) auto

lemma parseAttributeValue_at:
  assumes r: "rest st = CHR ''\"'' # v @ CHR ''\"'' # r" and v: "CHR ''\"'' \<notin> set v"
  shows "\<exists>st'. parseAttributeValue st = Inr (v, st') \<and> rest st' = r"
proof -
  from consume_at[of st "''\"''" "v @ CHR ''\"'' # r"] r obtain st1 where
    c1: "consume ''\"'' st = Some st1" and r1: "rest st1 = v @ CHR ''\"'' # r" by auto
  have "\<forall>c \<in> set v. c \<noteq> CHR ''\"''" using v by auto
  from scan_tracked_at[OF r1 this] obtain st2 where
    s: "scan_tracked (\<lambda>c. c \<noteq> CHR ''\"'') st1 = (v, st2)" and r2: "rest st2 = CHR ''\"'' # r"
    by auto
  from consume_at[of st2 "''\"''" r] r2 obtain st3 where
    c3: "consume ''\"'' st2 = Some st3" and r3: "rest st3 = r" by auto
  show ?thesis using c1 s c3 r3 by (simp add: parseAttributeValue_def)
qed

lemma parseAttributes_loop_reads:
  assumes "list_all attr_plain xs" "distinct (map fst (acc @ xs))"
    and "rest st = dropWhile is_space (attrs_text xs @ w @ c # r)"
    and "list_all is_space w" "c = CHR ''>'' \<or> c = CHR ''/''"
  shows "\<exists>st'. parseAttributes_loop st acc = Inr (acc @ xs, st') \<and> rest st' = c # r"
  using assms
proof (induction xs arbitrary: st acc)
  case Nil
  have nc: "\<not> is_space c" using Nil.prems(5) by (auto simp: is_space_def)
  have "rest st = c # r"
    using Nil.prems(3,4) nc dropWhile_run[of w is_space "c # r"] by (simp add: list_all_iff)
  then show ?case using Nil.prems(5)
    by (subst parseAttributes_loop.simps) auto
next
  case (Cons a xs)
  obtain k v where a: "a = (k, v)" by (cases a)
  from Cons.prems(1) a have k: "\<forall>c \<in> set k. is_ident c" and kp: "k \<noteq> ''__proto__''"
    and v: "\<not> list_ex special v" and xs: "list_all attr_plain xs"
    by (auto simp: attr_plain_def list_all_iff)
  define tl1 where "tl1 = v @ CHR ''\"'' # attrs_text xs @ w @ c # r"
  have h: "\<not> is_space (hd (k @ ''=\"'' @ tl1))"
  proof (cases k)
    case Nil
    then show ?thesis by (simp add: is_space_def)
  next
    case (Cons x k')
    with k have "is_ident x" by simp
    with Cons show ?thesis by (simp add: ident_not_space)
  qed
  have sp: "is_space (CHR '' '')" by (simp add: is_space_def)
  have r0: "rest st = k @ ''=\"'' @ tl1"
  proof -
    have "attrs_text (a # xs) @ w @ c # r = CHR '' '' # (k @ ''=\"'' @ tl1)"
      by (simp add: a tl1_def)
    with Cons.prems(3) have "rest st = dropWhile is_space (CHR '' '' # (k @ ''=\"'' @ tl1))"
      by (simp only:)
    also have "\<dots> = dropWhile is_space (k @ ''=\"'' @ tl1)" using sp by simp
    also have "\<dots> = k @ ''=\"'' @ tl1" by (rule dropWhile_stop) (rule disjI2, rule h)
    finally show ?thesis .
  qed
  have go: "rest st \<noteq> [] \<and> hd (rest st) \<noteq> CHR ''>'' \<and> hd (rest st) \<noteq> CHR ''/''"
    unfolding r0 using k by (cases k) (auto dest: ident_not_delim)
  have "\<not> is_ident (hd (''=\"'' @ tl1))" by (simp add: is_ident_def)
  with scan_plain_at[of st k "''=\"'' @ tl1" is_ident] r0 k obtain st1 where
    n: "parseAttributeName st = (k, st1)" and r1: "rest st1 = ''=\"'' @ tl1"
    by (auto simp: parseAttributeName_def)
  from consume_at[of st1 "''=''" "CHR ''\"'' # tl1"] r1 obtain st2 where
    c: "consume ''='' st1 = Some st2" and r2: "rest st2 = CHR ''\"'' # tl1" by auto
  have vq: "CHR ''\"'' \<notin> set v" using v by (auto simp: special_def list_ex_iff)
  from parseAttributeValue_at[of st2 v "attrs_text xs @ w @ c # r"] r2 vq obtain st3 where
    pv: "parseAttributeValue st2 = Inr (v, st3)" and r3: "rest st3 = attrs_text xs @ w @ c # r"
    by (auto simp: tl1_def)
  have knew: "k \<notin> fst ` set acc" using Cons.prems(2) a by auto
  have as: "assign k v acc = acc @ [(k, v)]"
    using kp knew by (simp add: assign_def update_new)
  have d: "distinct (map fst ((acc @ [(k, v)]) @ xs))" using Cons.prems(2) a by simp
  have r4: "rest (skipWhitespace st3) = dropWhile is_space (attrs_text xs @ w @ c # r)"
    using r3 by simp
  from Cons.IH[OF xs d r4 Cons.prems(4,5)] obtain st' where
    rec: "parseAttributes_loop (skipWhitespace st3) (acc @ [(k, v)]) = Inr ((acc @ [(k, v)]) @ xs, st')"
    and r': "rest st' = c # r" by blast
  have "parseAttributes_loop st acc = Inr (acc @ a # xs, st')"
    using go n c pv as rec a
    by (subst parseAttributes_loop.simps) (simp del: rest_skipWhitespace)
  with r' show ?case by blast
qed

text \<open>The opening tag of a plain element, up to \<open>>\<close> or \<open>/>\<close>.\<close>

lemma open_tag_reads:
  assumes tg: "list_all is_ident tg" and xs: "list_all attr_plain xs" "distinct (map fst xs)"
    and r: "rest st = ''<'' @ tg @ attrs_text xs @ w @ c # r"
    and w: "list_all is_space w" and c: "c = CHR ''>'' \<or> c = CHR ''/''"
  shows "\<exists>st1 st2 st3. consume ''<'' st = Some st1 \<and> parseTagName st1 = (tg, st2)
           \<and> parseAttributes st2 = Inr (xs, st3) \<and> rest st3 = c # r"
proof -
  define tl1 where "tl1 = attrs_text xs @ w @ c # r"
  from consume_at[of st "''<''" "tg @ tl1"] r obtain st1 where
    c1: "consume ''<'' st = Some st1" and r1: "rest st1 = tg @ tl1" by (auto simp: tl1_def)
  have "\<not> is_ident (hd tl1)"
  proof (cases xs)
    case Nil
    show ?thesis
    proof (cases w)
      case Nil
      with \<open>xs = []\<close> c show ?thesis by (auto simp: tl1_def is_ident_def)
    next
      case (Cons x w')
      with \<open>xs = []\<close> w show ?thesis by (auto simp: tl1_def space_not_ident)
    qed
  next
    case (Cons a xs')
    then show ?thesis by (cases a) (simp add: tl1_def is_ident_def)
  qed
  with scan_plain_at[of st1 tg tl1 is_ident] r1 tg obtain st2 where
    t: "parseTagName st1 = (tg, st2)" and r2: "rest st2 = tl1"
    by (auto simp: parseTagName_def list_all_iff)
  have r3: "rest (skipWhitespace st2) = dropWhile is_space (attrs_text xs @ w @ c # r)"
    using r2 by (simp add: tl1_def)
  from parseAttributes_loop_reads[of xs "[]" "skipWhitespace st2" w c r] xs r3 w c
  obtain st3 where "parseAttributes st2 = Inr (xs, st3)" "rest st3 = c # r"
    by (auto simp: parseAttributes_def simp del: rest_skipWhitespace)
  with c1 t show ?thesis by blast
qed

lemma element_head:
  assumes "list_all is_ident tg" "list_all attr_plain xs"
  shows "\<exists>c s. jsxToTXML (Element tg xs cs) = CHR ''<'' # c # s \<and> c \<noteq> CHR ''/'' \<and> c \<noteq> CHR ''!''"
proof -
  have h: "\<exists>c s. tg @ attrs_text xs @ z = c # s \<and> c \<noteq> CHR ''/'' \<and> c \<noteq> CHR ''!''"
    if z: "z = '' />'' \<or> (\<exists>y. z = ''>'' @ y)" for z
  proof (cases tg)
    case Nil
    with z show ?thesis by (cases xs rule: attrs_text.cases) auto
  next
    case (Cons x tg')
    with assms(1) have "is_ident x" by simp
    from ident_not_delim[OF this] Cons show ?thesis by simp
  qed
  show ?thesis
  proof (cases "cs = []")
    case True
    with h[of "'' />''"] show ?thesis unfolding jsxToTXML_plain[OF assms(2)] by simp
  next
    case False
    with h[of "''>'' @ concat (map jsxToTXML cs) @ ''</'' @ tg @ ''>''"] show ?thesis
      unfolding jsxToTXML_plain[OF assms(2)] by simp
  qed
qed

lemma after_text:
  assumes "texts_apart (TextNode t # cs)" "list_all plain cs"
  shows "\<exists>r'. concat (map jsxToTXML cs) @ ''</'' @ r = CHR ''<'' # r'"
proof (cases cs)
  case Nil
  then show ?thesis by simp
next
  case (Cons c cs')
  with assms(1) obtain tg xs cs2 where c: "c = Element tg xs cs2" by (cases c) auto
  with Cons assms(2) have "list_all is_ident tg" "list_all attr_plain xs" by auto
  from element_head[OF this, of cs2] show ?thesis using Cons c by auto
qed

lemma texts_apart_tl: "texts_apart (c # cs) \<Longrightarrow> texts_apart cs"
  by (cases c; cases cs) (auto elim: texts_apart.elims)

fun is_element :: "node \<Rightarrow> bool" where
  "is_element (Element tg xs cs) = True"
| "is_element (TextNode s) = False"

text \<open>
  \<open>reads_element c\<close>: wherever the text of \<open>c\<close> stands, \<open>parseElement\<close> reads \<open>c\<close>
  and stops right after it.
\<close>

definition reads_element :: "node \<Rightarrow> bool" where
  "reads_element c \<longleftrightarrow>
     (\<forall>st r. rest st = jsxToTXML c @ r \<longrightarrow>
        (\<exists>st'. parseElement st = Inr (c, st') \<and> rest st' = r))"

lemma children_read:
  assumes "\<forall>c \<in> set cs. is_element c \<longrightarrow> plain c \<longrightarrow> reads_element c"
    and "list_all plain cs" "texts_apart cs"
    and "rest st = concat (map jsxToTXML cs) @ ''</'' @ r"
  shows "\<exists>st'. parseChildren st acc = Inr (acc @ cs, st') \<and> rest st' = ''</'' @ r"
  using assms
proof (induction cs arbitrary: st acc)
  case Nil
  then have r: "rest st = ''</'' @ r" by simp
  then have i: "skipWhitespace st = st" by (intro skipWhitespace_idle) (simp add: is_space_def)
  have "parseChildren st acc = Inr (acc, st)"
    using r i by (subst parseChildren.simps) (simp add: Let_def del: rest_skipWhitespace)
  with r show ?case by simp
next
  case (Cons c cs)
  have p1: "\<forall>c \<in> set cs. is_element c \<longrightarrow> plain c \<longrightarrow> reads_element c"
    using Cons.prems(1) by simp
  have p2: "list_all plain cs" using Cons.prems(2) by simp
  have p3: "texts_apart cs" using Cons.prems(3) by (rule texts_apart_tl)
  note IH = Cons.IH[OF p1 p2 p3]
  show ?case
  proof (cases c)
    case (TextNode t)
    with Cons.prems(2) have k: "kept_text t" by simp
    from after_text[of t cs r] Cons.prems(3) p2 TextNode obtain r' where
      e: "concat (map jsxToTXML cs) @ ''</'' @ r = CHR ''<'' # r'" by blast
    have "rest st = [] @ t @ CHR ''<'' # r'" using Cons.prems(4) TextNode e by simp
    from text_run_child[OF this _ k, of acc] obtain st2 where
      r2: "rest st2 = CHR ''<'' # r'"
      and p: "parseChildren st acc = parseChildren st2 (acc @ [TextNode t])" by auto
    from r2 e have "rest st2 = concat (map jsxToTXML cs) @ ''</'' @ r" by simp
    from IH[OF this, of "acc @ [TextNode t]"] obtain st' where
      "parseChildren st2 (acc @ [TextNode t]) = Inr ((acc @ [TextNode t]) @ cs, st')"
      "rest st' = ''</'' @ r" by blast
    with p TextNode show ?thesis by simp
  next
    case (Element tg xs cs2)
    with Cons.prems(2) have pc: "plain c" and tg: "list_all is_ident tg"
      and xs: "list_all attr_plain xs" by auto
    have ie: "is_element c" using Element by simp
    from element_head[OF tg xs, of cs2] Element obtain x s where
      hd: "jsxToTXML c = CHR ''<'' # x # s" and x: "x \<noteq> CHR ''/''" "x \<noteq> CHR ''!''" by auto
    have r0: "rest st = jsxToTXML c @ concat (map jsxToTXML cs) @ ''</'' @ r"
      using Cons.prems(4) by simp
    have i: "skipWhitespace st = st"
      using r0 hd by (intro skipWhitespace_idle) (simp add: is_space_def)
    from Cons.prems(1) ie pc have "reads_element c" by simp
    with r0 obtain st2 where
      pe: "parseElement st = Inr (c, st2)"
      and r2: "rest st2 = concat (map jsxToTXML cs) @ ''</'' @ r"
      unfolding reads_element_def by blast
    have r1: "rest st = CHR ''<'' # x # s @ concat (map jsxToTXML cs) @ ''</'' @ r"
      using r0 hd by simp
    have "parseChildren st acc = parseChildren st2 (acc @ [c])"
      using r1 x i pe by (subst parseChildren.simps) (simp add: Let_def del: rest_skipWhitespace)
    moreover from IH[OF r2, of "acc @ [c]"] obtain st' where
      "parseChildren st2 (acc @ [c]) = Inr ((acc @ [c]) @ cs, st')" "rest st' = ''</'' @ r"
      by blast
    ultimately show ?thesis by simp
  qed
qed

lemma element_read: "is_element c \<Longrightarrow> plain c \<Longrightarrow> reads_element c"
proof (induction c rule: node.induct)
  case (TextNode s)
  then show ?case by simp
next
  case (Element tg xs cs)
  have "\<exists>st'. parseElement st = Inr (Element tg xs cs, st') \<and> rest st' = r"
    if r: "rest st = jsxToTXML (Element tg xs cs) @ r" for st r
  proof -
  from Element.prems(2) have tg: "list_all is_ident tg" and xs: "list_all attr_plain xs"
    and d: "distinct (map fst xs)" and ap: "texts_apart cs" and pl: "list_all plain cs" by auto
  show ?thesis
  proof (cases "cs = []")
    case True
    have "rest st = ''<'' @ tg @ attrs_text xs @ '' '' @ CHR ''/'' # (CHR ''>'' # r)"
      using r True xs by (simp add: jsxToTXML_plain)
    from open_tag_reads[OF tg xs d this] obtain st1 st2 st3 where
      o: "consume ''<'' st = Some st1" "parseTagName st1 = (tg, st2)"
         "parseAttributes st2 = Inr (xs, st3)" and r3: "rest st3 = ''/>'' @ r"
      by (auto simp: is_space_def)
    from consume_at[OF r3] obtain st4 where
      c4: "consume ''/>'' st3 = Some st4" and r4: "rest st4 = r" by auto
    have "parseElement st = Inr (Element tg xs [], st4)"
      using o c4 by (subst parseElement.simps) simp
    with r4 True show ?thesis by blast
  next
    case False
    define tl1 where "tl1 = concat (map jsxToTXML cs) @ ''</'' @ tg @ ''>'' @ r"
    have "rest st = ''<'' @ tg @ attrs_text xs @ [] @ CHR ''>'' # tl1"
      using r False xs by (simp add: jsxToTXML_plain tl1_def)
    from open_tag_reads[OF tg xs d this] obtain st1 st2 st3 where
      o: "consume ''<'' st = Some st1" "parseTagName st1 = (tg, st2)"
         "parseAttributes st2 = Inr (xs, st3)" and r3: "rest st3 = ''>'' @ tl1"
      by auto
    have c3: "consume ''/>'' st3 = None" using r3 by (intro consume_not) simp
    from consume_at[OF r3] obtain st4 where
      c4: "consume ''>'' st3 = Some st4" and r4: "rest st4 = tl1" by auto
    have "\<forall>c \<in> set cs. is_element c \<longrightarrow> plain c \<longrightarrow> reads_element c"
      using Element.IH by blast
    from children_read[OF this pl ap, of st4 "tg @ ''>'' @ r" "[]"] r4 obtain st5 where
      pc: "parseChildren st4 [] = Inr (cs, st5)" and r5: "rest st5 = ''</'' @ tg @ ''>'' @ r"
      by (auto simp: tl1_def)
    from consume_at[OF r5] obtain st6 where
      c6: "consume ''</'' st5 = Some st6" and r6: "rest st6 = tg @ ''>'' @ r" by auto
    have "\<not> is_ident (hd (''>'' @ r))" by (simp add: is_ident_def)
    with scan_plain_at[of st6 tg "''>'' @ r" is_ident] r6 tg obtain st7 where
      t7: "parseTagName st6 = (tg, st7)" and r7: "rest st7 = ''>'' @ r"
      by (auto simp: parseTagName_def list_all_iff)
    from consume_at[OF r7] obtain st8 where
      c8: "consume ''>'' st7 = Some st8" and r8: "rest st8 = r" by auto
    have "parseElement st = Inr (Element tg xs cs, st8)"
      using o c3 c4 pc c6 t7 c8 by (subst parseElement.simps) simp
    with r8 show ?thesis by blast
  qed
  qed
  then show ?case unfolding reads_element_def by blast
qed

lemma plain_round_trip:
  assumes p: "plain (Element tg xs cs)" and a: "tg = ''App''"
  shows "parseTXML (jsxToTXML (Element tg xs cs)) = Inr (Element tg xs cs)"
proof -
  define s where "s = jsxToTXML (Element tg xs cs)"
  from p have tgi: "list_all is_ident tg" and xs: "list_all attr_plain xs" by auto
  from element_head[OF tgi xs, of cs] obtain x s' where hd: "s = CHR ''<'' # x # s'"
    by (auto simp: s_def)
  have "last s = CHR ''>''" unfolding s_def using xs by (simp add: jsxToTXML_plain)
  then have t: "trim s = s" using hd by (intro trim_no_space_ends) (auto simp: is_space_def)
  define st where "st = \<lparr>rest = s, line = 1, column = 1\<rparr>"
  have i: "skipWhitespace st = st"
    using hd by (intro skipWhitespace_idle) (simp add: st_def is_space_def)
  have "rest st = jsxToTXML (Element tg xs cs) @ []" by (simp add: st_def s_def)
  moreover have "reads_element (Element tg xs cs)" using p by (intro element_read) simp
  ultimately obtain st1 where
    pe: "parseElement st = Inr (Element tg xs cs, st1)" and r1: "rest st1 = []"
    unfolding reads_element_def by blast
  have "parse s = Inr (Element tg xs cs)"
  proof -
    have st': "skipWhitespace \<lparr>rest = trim s, line = 1, column = 1\<rparr> = st"
      using t i unfolding st_def by simp
    have rs: "rest st \<noteq> [] \<and> hd (rest st) = CHR ''<''" using hd by (simp add: st_def)
    have r1': "rest (skipWhitespace st1) = []" using r1 by simp
    show ?thesis unfolding parse_def Let_def st'
      using rs pe r1' a by (simp del: rest_skipWhitespace)
  qed
  then show ?thesis by (simp add: parseTXML_def s_def)
qed

text \<open>
  Claim C2, as the code has it.  A tree built by \<open>jsx\<close> or \<open>jsxs\<close> is read back
  from its \<open>jsxToTXML\<close> text as the same tree when its root is \<open>App\<close> and the
  tree is \<open>plain\<close>: every tag and attribute name is made of letters, digits,
  \<open>_\<close> and \<open>-\<close>, no attribute is named \<^verbatim>\<open>__proto__\<close>, no attribute value has one
  of the characters \<^verbatim>\<open>& " ' < >\<close>, every text child is not empty, begins with
  no white space and has no \<open><\<close>, and no two text children are next to each
  other.
\<close>

theorem plain_tree_round_trip:
  "plain (jsx t p k) \<and> t = ''App'' \<longrightarrow>
     parseTXML (jsxToTXML (jsx t p k)) = Inr (jsx t p k)
     \<and> parseTXML (jsxToTXML (jsxs t p k)) = Inr (jsxs t p k)"
proof -
  obtain xs cs where j: "jsx t p k = Element t xs cs" by (simp add: jsx_def Let_def)
  show ?thesis unfolding jsxs_def j using plain_round_trip[of t xs cs] by blast
qed

definition button_props :: props where
  "button_props = \<lparr>children_prop = Single Undefined, others = [(''label'', ''OK''), (''key'', ''1'')]\<rparr>"

definition app_props :: props where
  "app_props =
     \<lparr>children_prop = Array [Child (TextNode ''hi ''), Null,
                              Child (jsx ''Button'' (Some button_props) (Single Undefined))],
      others = [(''title'', ''My App'')]\<rparr>"

lemma jsx_app_props:
  "jsx ''App'' (Some app_props) (Single Undefined) =
     Element ''App'' [(''title'', ''My App'')]
       [TextNode ''hi '', Element ''Button'' [(''label'', ''OK'')] []]"
  by (simp add: jsx_eval app_props_def button_props_def assign_def)

theorem plain_tree_round_trip_witness:
  "parseTXML (jsxToTXML (jsx ''App'' (Some app_props) (Single Undefined))) =
     Inr (Element ''App'' [(''title'', ''My App'')]
            [TextNode ''hi '', Element ''Button'' [(''label'', ''OK'')] []])"
proof -
  have "plain (Element ''App'' [(''title'', ''My App'')]
                 [TextNode ''hi '', Element ''Button'' [(''label'', ''OK'')] []])"
    by (simp add: kept_text_def attr_plain_def special_def is_ident_def is_space_def)
  then have "plain (jsx ''App'' (Some app_props) (Single Undefined))"
    by (simp only: jsx_app_props)
  with plain_tree_round_trip[of "''App''" "Some app_props" "Single Undefined"]
  have "parseTXML (jsxToTXML (jsx ''App'' (Some app_props) (Single Undefined))) =
          Inr (jsx ''App'' (Some app_props) (Single Undefined))"
    by blast
  then show ?thesis by (simp only: jsx_app_props)
qed

text \<open>
  Three trees that do not come back.  An attribute value with \<open>&\<close> is escaped
  by \<open>jsxToTXML\<close> and the parser keeps the escaped text; two text children next
  to each other are read as one text; a tree whose root is not \<open>App\<close> is
  refused.
\<close>

theorem round_trip_changes_tree:
  "jsx ''App'' (Some \<lparr>children_prop = Single Undefined, others = [(''title'', ''a&b'')]\<rparr>)
       (Single Undefined)
     = Element ''App'' [(''title'', ''a&b'')] []
   \<and> parseTXML (jsxToTXML (Element ''App'' [(''title'', ''a&b'')] []))
     = Inr (Element ''App'' [(''title'', ''a&amp;b'')] [])
   \<and> jsx ''App'' (Some \<lparr>children_prop = Array [Child (TextNode ''Hello, ''),
                                                Child (TextNode ''World'')],
                         others = []\<rparr>)
       (Single Undefined)
     = Element ''App'' [] [TextNode ''Hello, '', TextNode ''World'']
   \<and> parseTXML (jsxToTXML (Element ''App'' [] [TextNode ''Hello, '', TextNode ''World'']))
     = Inr (Element ''App'' [] [TextNode ''Hello, World''])
   \<and> jsx ''Window'' None (Single Undefined) = Element ''Window'' [] []
   \<and> parseTXML (jsxToTXML (Element ''Window'' [] []))
     = Inl (TXMLParseError ''Root element must be <App>'' 1 11)"
proof -
  have a1: "jsx ''App'' (Some \<lparr>children_prop = Single Undefined, others = [(''title'', ''a&b'')]\<rparr>)
       (Single Undefined) = Element ''App'' [(''title'', ''a&b'')] []"
    by (simp add: jsx_eval assign_def)
  have a2: "jsxToTXML (Element ''App'' [(''title'', ''a&b'')] []) = ''<App title=\"a&amp;b\" />''"
    by (simp add: jsxToTXML.simps jsx_eval)
  have a3: "parseTXML ''<App title=\"a&amp;b\" />'' = Inr (Element ''App'' [(''title'', ''a&amp;b'')] [])"
    by (simp add: xml_eval)
  have b1: "jsx ''App'' (Some \<lparr>children_prop = Array [Child (TextNode ''Hello, ''),
                                                Child (TextNode ''World'')],
                         others = []\<rparr>)
       (Single Undefined) = Element ''App'' [] [TextNode ''Hello, '', TextNode ''World'']"
    by (simp add: jsx_eval)
  have b2: "jsxToTXML (Element ''App'' [] [TextNode ''Hello, '', TextNode ''World''])
      = ''<App>Hello, World</App>''"
    by (simp add: jsxToTXML.simps)
  have b3: "parseTXML ''<App>Hello, World</App>'' = Inr (Element ''App'' [] [TextNode ''Hello, World''])"
    by (simp add: xml_eval)
  have c1: "jsx ''Window'' None (Single Undefined) = Element ''Window'' [] []"
    by (simp add: jsx_eval)
  have c2: "jsxToTXML (Element ''Window'' [] []) = ''<Window />''"
    by (simp add: jsxToTXML.simps)
  have c3: "parseTXML ''<Window />'' = Inl (TXMLParseError ''Root element must be <App>'' 1 11)"
    by (simp add: xml_eval)
  show ?thesis unfolding a2 b2 c2 using a1 a3 b1 b3 c1 c3 by blast
qed

end
